theory Spec2Isabelle
  imports Complex_Main
begin

section \<open>Data model of \<^verbatim>\<open>simulation.py\<close>\<close>

text \<open>
  Python floats are idealised as real numbers; the integer fields (\<^verbatim>\<open>N\<close>, \<^verbatim>\<open>id\<close>,
  the counters) are unbounded integers. The disease state is one of the five string
  literals the source ever assigns; \<^verbatim>\<open>next_state\<close> additionally starts as \<^verbatim>\<open>None\<close>.
\<close>

datatype state = S | E | I | R | D

datatype error = ValueError | ZeroDivisionError | KeyError

record config =
  N :: int
  grid_size :: real
  beta :: real
  incubation_mean :: real
  incubation_std :: real
  infectious_mean :: real
  infectious_std :: real
  mortality_rate :: real
  vax_rate :: real
  interaction_radius :: real
  dt :: real
  home_attraction :: real
  random_force :: real
  isolation_compliance :: real
  detection_prob :: real

text \<open>The defaults of the dataclass \<^verbatim>\<open>SimulationConfig\<close>.\<close>

definition default_config :: config where
  "default_config =
     \<lparr>N = 200, grid_size = 100, beta = 1,
      incubation_mean = 5, incubation_std = 2,
      infectious_mean = 7, infectious_std = 3,
      mortality_rate = 2 / 100, vax_rate = 0, interaction_radius = 2, dt = 1 / 2,
      home_attraction = 5 / 100, random_force = 1,
      isolation_compliance = 0, detection_prob = 0\<rparr>"

record agent =
  agent_id :: int
  x :: real
  y :: real
  vx :: real
  vy :: real
  home_x :: real
  home_y :: real
  infectiousness :: real
  susceptibility :: real
  state :: state
  state_timer :: real
  days_in_state :: real
  is_isolated :: bool
  next_state :: "state option"
  next_timer :: real

subsection \<open>Random sources\<close>

text \<open>
  The two global generators (Python's \<^verbatim>\<open>random\<close> and \<^verbatim>\<open>numpy.random\<close>) are explicit
  streams of draws, consumed from the front: \<^verbatim>\<open>random.random()\<close> takes the next value of
  the first stream, a numpy sampler takes the next standard variate of the second one.
\<close>

type_synonym draws = "nat \<Rightarrow> real"

record rng =
  py_random :: draws
  np_random :: draws

definition rest :: "draws \<Rightarrow> draws" where
  "rest d = (\<lambda>n. d (Suc n))"

definition random :: "rng \<Rightarrow> real \<times> rng" where
  "random g = (py_random g 0, g\<lparr>py_random := rest (py_random g)\<rparr>)"

definition uniform :: "real \<Rightarrow> real \<Rightarrow> rng \<Rightarrow> real \<times> rng" where
  "uniform a b g = (case random g of (u, g') \<Rightarrow> (a + (b - a) * u, g'))"

text \<open>\<^verbatim>\<open>np.random.normal(loc, scale)\<close> raises \<^verbatim>\<open>ValueError\<close> on a negative scale.\<close>

definition normal :: "real \<Rightarrow> real \<Rightarrow> rng \<Rightarrow> error + (real \<times> rng)" where
  "normal loc scale g =
     (if scale < 0 then Inl ValueError
      else Inr (loc + scale * np_random g 0, g\<lparr>np_random := rest (np_random g)\<rparr>))"

definition gamma :: "real \<Rightarrow> real \<Rightarrow> rng \<Rightarrow> real \<times> rng" where
  "gamma shape scale g = (scale * np_random g 0, g\<lparr>np_random := rest (np_random g)\<rparr>)"


record sim =
  config :: config
  agents :: "agent list"
  stats :: "state \<Rightarrow> int list"
  rt_history :: "real list"

section \<open>\<^verbatim>\<open>Agent.move\<close>\<close>

text \<open>
  The method body, one definition for each of its commented parts; \<open>h\<close> is the
  argument \<^verbatim>\<open>dt\<close>.
\<close>

text \<open>1. Attraction to home.\<close>

definition attract :: "real \<Rightarrow> real \<Rightarrow> agent \<Rightarrow> agent" where
  "attract ha h a =
     (let dx = home_x a - x a;
          dy = home_y a - y a
      in a\<lparr>vx := vx a + dx * ha * h, vy := vy a + dy * ha * h\<rparr>)"

text \<open>2. Random walk: \<open>u1\<close> and \<open>u2\<close> are the two draws \<^verbatim>\<open>random.uniform(-1, 1)\<close>.\<close>

definition random_walk :: "real \<Rightarrow> real \<Rightarrow> real \<Rightarrow> real \<Rightarrow> agent \<Rightarrow> agent" where
  "random_walk rf h u1 u2 a = a\<lparr>vx := vx a + u1 * rf * h, vy := vy a + u2 * rf * h\<rparr>"

text \<open>3. Damping.\<close>

definition damp :: "agent \<Rightarrow> agent" where
  "damp a = a\<lparr>vx := vx a * (95 / 100), vy := vy a * (95 / 100)\<rparr>"

text \<open>Update position.\<close>

definition update_position :: "real \<Rightarrow> agent \<Rightarrow> agent" where
  "update_position h a = a\<lparr>x := x a + vx a * h, y := y a + vy a * h\<rparr>"

text \<open>Boundary checks (bounce), first on \<^verbatim>\<open>x\<close>, then on \<^verbatim>\<open>y\<close>.\<close>

definition bounce_x :: "real \<Rightarrow> agent \<Rightarrow> agent" where
  "bounce_x gs a =
     (if x a < 0 then a\<lparr>x := - x a, vx := - vx a\<rparr>
      else if x a > gs then a\<lparr>x := 2 * gs - x a, vx := - vx a\<rparr>
      else a)"

definition bounce_y :: "real \<Rightarrow> agent \<Rightarrow> agent" where
  "bounce_y gs a =
     (if y a < 0 then a\<lparr>y := - y a, vy := - vy a\<rparr>
      else if y a > gs then a\<lparr>y := 2 * gs - y a, vy := - vy a\<rparr>
      else a)"

text \<open>
  The arguments of \<^verbatim>\<open>move\<close> are \<^verbatim>\<open>grid_size\<close>, \<^verbatim>\<open>dt\<close>, \<^verbatim>\<open>home_attraction\<close> and
  \<^verbatim>\<open>random_force\<close>, in the order of the source.
\<close>

definition move :: "real \<Rightarrow> real \<Rightarrow> real \<Rightarrow> real \<Rightarrow> agent \<Rightarrow> rng \<Rightarrow> agent \<times> rng" where
  "move gs h ha rf a g =
     (if state a = D \<or> is_isolated a then (a, g)
      else
        let a1 = attract ha h a;
            (u1, g1) = uniform (- 1) 1 g;
            (u2, g2) = uniform (- 1) 1 g1;
            a2 = random_walk rf h u1 u2 a1;
            a3 = damp a2;
            a4 = update_position h a3;
            a5 = bounce_x gs a4;
            a6 = bounce_y gs a5
        in (a6, g2))"

section \<open>\<^verbatim>\<open>EpidemicSimulation\<close>\<close>

subsection \<open>\<^verbatim>\<open>update_stats\<close>\<close>

definition count_states :: "agent list \<Rightarrow> state \<Rightarrow> int" where
  "count_states as = fold (\<lambda>a counts. counts(state a := counts (state a) + 1)) as (\<lambda>_. 0)"

text \<open>Float division by \<^verbatim>\<open>dt = 0\<close> raises \<^verbatim>\<open>ZeroDivisionError\<close>.\<close>

definition update_stats :: "sim \<Rightarrow> int \<Rightarrow> int \<Rightarrow> error + sim" where
  "update_stats s new_infections current_infectious_agents =
     (let counts = count_states (agents s);
          s1 = s\<lparr>stats := (\<lambda>key. stats s key @ [counts key])\<rparr>
      in if current_infectious_agents > 0 then
           (if dt (config s) = 0 then Inl ZeroDivisionError
            else Inr (s1\<lparr>rt_history := rt_history s1 @
                   [(real_of_int new_infections / dt (config s))
                      / real_of_int current_infectious_agents * infectious_mean (config s)]\<rparr>))
         else Inr (s1\<lparr>rt_history := rt_history s1 @ [0]\<rparr>))"

subsection \<open>\<^verbatim>\<open>__init__\<close> and \<^verbatim>\<open>init_agents\<close>\<close>

fun foldM :: "('a \<Rightarrow> 'b \<Rightarrow> error + 'b) \<Rightarrow> 'a list \<Rightarrow> 'b \<Rightarrow> error + 'b" where
  "foldM f [] b = Inr b"
| "foldM f (a # as) b = (case f a b of Inl e \<Rightarrow> Inl e | Inr b' \<Rightarrow> foldM f as b')"

text \<open>One iteration of the loop of \<^verbatim>\<open>init_agents\<close>, with \<^verbatim>\<open>num_infected = 1\<close>.\<close>

definition init_agent :: "config \<Rightarrow> int \<Rightarrow> agent list \<times> rng \<Rightarrow> error + (agent list \<times> rng)" where
  "init_agent cfg i = (\<lambda>(as, g).
     let (px, g1) = uniform 0 (grid_size cfg) g;
         (py, g2) = uniform 0 (grid_size cfg) g1;
         (pvx, g3) = uniform (- 1) 1 g2;
         (pvy, g4) = uniform (- 1) 1 g3
     in case (if i < 1
              then (case normal (infectious_mean cfg) (infectious_std cfg) g4 of
                      Inl e \<Rightarrow> Inl e
                    | Inr (t, g5) \<Rightarrow> Inr (I, max 0 t, g5))
              else Inr (S, 0, g4)) of
          Inl e \<Rightarrow> Inl e
        | Inr (st, timer, g5) \<Rightarrow>
            let (inf, g6) = gamma 2 (1 / 2) g5;
                (sus, g7) = uniform (1 / 2) (3 / 2) g6
            in Inr (as @ [\<lparr>agent_id = i, x = px, y = py, vx = pvx, vy = pvy,
                           home_x = px, home_y = py,
                           infectiousness = inf, susceptibility = sus,
                           state = st, state_timer = timer, days_in_state = 0,
                           is_isolated = False, next_state = None, next_timer = 0\<rparr>], g7))"

definition construct :: "config \<Rightarrow> rng \<Rightarrow> error + (sim \<times> rng)" where
  "construct cfg g =
     (case foldM (init_agent cfg) [0..N cfg - 1] ([], g) of
        Inl e \<Rightarrow> Inl e
      | Inr (as, g') \<Rightarrow>
          (case update_stats \<lparr>config = cfg, agents = as, stats = (\<lambda>_. []), rt_history = []\<rparr> 0 0 of
             Inl e \<Rightarrow> Inl e
           | Inr s \<Rightarrow> Inr (s, g')))"

subsection \<open>\<^verbatim>\<open>step\<close>\<close>

text \<open>1. Move agents: the first loop of \<^verbatim>\<open>step\<close>.\<close>

fun move_all :: "config \<Rightarrow> agent list \<Rightarrow> rng \<Rightarrow> agent list \<times> rng" where
  "move_all cfg [] g = ([], g)"
| "move_all cfg (a # as) g =
     (let (a', g1) = move (grid_size cfg) (dt cfg) (home_attraction cfg) (random_force cfg) a g;
          (as', g2) = move_all cfg as g1
      in (a' # as', g2))"

text \<open>
  2. Spatial partitioning. \<^verbatim>\<open>int(...)\<close> truncates towards zero. The dictionary holds
  references to the agent objects: here the positions of the agents in \<^verbatim>\<open>self.agents\<close>,
  so that a read through the grid sees the agent as it is in the store at that moment.
\<close>

definition py_int :: "real \<Rightarrow> int" where
  "py_int r = (if 0 \<le> r then \<lfloor>r\<rfloor> else \<lceil>r\<rceil>)"

type_synonym grid = "int \<times> int \<Rightarrow> nat list option"

definition grid_insert :: "real \<Rightarrow> agent list \<Rightarrow> nat \<Rightarrow> grid \<Rightarrow> grid" where
  "grid_insert grid_cell_size as i grid =
     (if state (as ! i) = D then grid
      else
        let cx = py_int (x (as ! i) / grid_cell_size);
            cy = py_int (y (as ! i) / grid_cell_size)
        in (case grid (cx, cy) of
              None \<Rightarrow> grid((cx, cy) \<mapsto> [i])
            | Some l \<Rightarrow> grid((cx, cy) \<mapsto> l @ [i])))"

definition build_grid :: "real \<Rightarrow> agent list \<Rightarrow> grid" where
  "build_grid grid_cell_size as =
     fold (grid_insert grid_cell_size as) [0..<length as] Map.empty"

text \<open>
  3. Determine next states. The store is the list of agents, written in place at the
  position of the agent being processed.
\<close>

definition upd :: "nat \<Rightarrow> (agent \<Rightarrow> agent) \<Rightarrow> agent list \<Rightarrow> agent list" where
  "upd i f as = as[i := f (as ! i)]"

text \<open>
  The innermost loop \<^verbatim>\<open>for neighbor in grid[(ncx, ncy)]\<close>; its \<^verbatim>\<open>break\<close> ends this loop
  only.
\<close>

fun scan_neighbors ::
  "config \<Rightarrow> nat \<Rightarrow> nat list \<Rightarrow> agent list \<times> rng \<times> int \<Rightarrow> error + (agent list \<times> rng \<times> int)" where
  "scan_neighbors cfg i [] st = Inr st"
| "scan_neighbors cfg i (j # js) (as, g, new_infections) =
     (if state (as ! j) = I \<and> \<not> is_isolated (as ! j) then
        (let dist_sq = (x (as ! i) - x (as ! j))\<^sup>2 + (y (as ! i) - y (as ! j))\<^sup>2
         in if dist_sq \<le> (interaction_radius cfg)\<^sup>2 then
              (let prob = beta cfg * infectiousness (as ! j) * susceptibility (as ! i) * dt cfg;
                   (u, g1) = random g
               in if u < prob then
                    (case normal (incubation_mean cfg) (incubation_std cfg) g1 of
                       Inl e \<Rightarrow> Inl e
                     | Inr (t, g2) \<Rightarrow>
                         Inr (upd i (\<lambda>a. a\<lparr>next_state := Some E, next_timer := max 0 t\<rparr>) as,
                              g2, new_infections + 1))
                  else scan_neighbors cfg i js (as, g1, new_infections))
            else scan_neighbors cfg i js (as, g, new_infections))
      else scan_neighbors cfg i js (as, g, new_infections))"

text \<open>The body of \<^verbatim>\<open>for dy in [-1, 0, 1]\<close>, and that loop, which has no \<^verbatim>\<open>break\<close>.\<close>

definition scan_cell ::
  "config \<Rightarrow> grid \<Rightarrow> nat \<Rightarrow> int \<Rightarrow> int \<Rightarrow> int \<Rightarrow> int \<Rightarrow> agent list \<times> rng \<times> int
     \<Rightarrow> error + (agent list \<times> rng \<times> int)" where
  "scan_cell cfg grid i cx cy dx dy st =
     (case grid (cx + dx, cy + dy) of
        None \<Rightarrow> Inr st
      | Some l \<Rightarrow> scan_neighbors cfg i l st)"

definition scan_dy ::
  "config \<Rightarrow> grid \<Rightarrow> nat \<Rightarrow> int \<Rightarrow> int \<Rightarrow> int \<Rightarrow> agent list \<times> rng \<times> int
     \<Rightarrow> error + (agent list \<times> rng \<times> int)" where
  "scan_dy cfg grid i cx cy dx st = foldM (scan_cell cfg grid i cx cy dx) [- 1, 0, 1] st"

text \<open>
  \<^verbatim>\<open>for dx in [-1, 0, 1]\<close>: after the whole \<^verbatim>\<open>dy\<close> loop of one \<^verbatim>\<open>dx\<close>, the loop ends if
  the pending state is \<^verbatim>\<open>"E"\<close>.
\<close>

fun scan_dx ::
  "config \<Rightarrow> grid \<Rightarrow> nat \<Rightarrow> int \<Rightarrow> int \<Rightarrow> int list \<Rightarrow> agent list \<times> rng \<times> int
     \<Rightarrow> error + (agent list \<times> rng \<times> int)" where
  "scan_dx cfg grid i cx cy [] st = Inr st"
| "scan_dx cfg grid i cx cy (dx # dxs) st =
     (case scan_dy cfg grid i cx cy dx st of
        Inl e \<Rightarrow> Inl e
      | Inr (as, g, new_infections) \<Rightarrow>
          if next_state (as ! i) = Some E then Inr (as, g, new_infections)
          else scan_dx cfg grid i cx cy dxs (as, g, new_infections))"

text \<open>The three branches of the \<^verbatim>\<open>if/elif\<close> chain on the committed state.\<close>

definition decide_S ::
  "config \<Rightarrow> grid \<Rightarrow> real \<Rightarrow> nat \<Rightarrow> agent list \<times> rng \<times> int \<times> int
     \<Rightarrow> error + (agent list \<times> rng \<times> int \<times> int)" where
  "decide_S cfg grid grid_cell_size i = (\<lambda>(as, g, new_infections, current_infectious_agents).
     let (u, g1) = random g
     in if u < vax_rate cfg * dt cfg then
          Inr (upd i (\<lambda>a. a\<lparr>next_state := Some R\<rparr>) as, g1,
               new_infections, current_infectious_agents)
        else
          (let cx = py_int (x (as ! i) / grid_cell_size);
               cy = py_int (y (as ! i) / grid_cell_size)
           in case scan_dx cfg grid i cx cy [- 1, 0, 1] (as, g1, new_infections) of
                Inl e \<Rightarrow> Inl e
              | Inr (as', g2, new_infections') \<Rightarrow>
                  Inr (as', g2, new_infections', current_infectious_agents)))"

definition decide_E ::
  "config \<Rightarrow> nat \<Rightarrow> agent list \<times> rng \<times> int \<times> int \<Rightarrow> error + (agent list \<times> rng \<times> int \<times> int)" where
  "decide_E cfg i = (\<lambda>(as, g, new_infections, current_infectious_agents).
     if next_timer (as ! i) \<le> 0 then
       (case normal (infectious_mean cfg) (infectious_std cfg) g of
          Inl e \<Rightarrow> Inl e
        | Inr (t, g1) \<Rightarrow>
            let as1 = upd i (\<lambda>a. a\<lparr>next_state := Some I, next_timer := max 0 t\<rparr>) as;
                (u1, g2) = random g1
            in if u1 < detection_prob cfg then
                 (let (u2, g3) = random g2
                  in if u2 < isolation_compliance cfg then
                       Inr (upd i (\<lambda>a. a\<lparr>is_isolated := True\<rparr>) as1, g3,
                            new_infections, current_infectious_agents)
                     else Inr (as1, g3, new_infections, current_infectious_agents))
               else Inr (as1, g2, new_infections, current_infectious_agents))
     else Inr (as, g, new_infections, current_infectious_agents))"

definition decide_I ::
  "config \<Rightarrow> nat \<Rightarrow> agent list \<times> rng \<times> int \<times> int \<Rightarrow> error + (agent list \<times> rng \<times> int \<times> int)" where
  "decide_I cfg i = (\<lambda>(as, g, new_infections, current_infectious_agents).
     let current_infectious_agents' = current_infectious_agents + 1
     in if next_timer (as ! i) \<le> 0 then
          (let (u, g1) = random g;
               as1 = (if u < mortality_rate cfg
                      then upd i (\<lambda>a. a\<lparr>next_state := Some D\<rparr>) as
                      else upd i (\<lambda>a. a\<lparr>next_state := Some R\<rparr>) as)
           in Inr (upd i (\<lambda>a. a\<lparr>is_isolated := False\<rparr>) as1, g1,
                   new_infections, current_infectious_agents'))
        else Inr (as, g, new_infections, current_infectious_agents'))"

text \<open>The body of the loop \<^verbatim>\<open>for agent in self.agents\<close> of part 3, for the agent at \<open>i\<close>.\<close>

definition decide ::
  "config \<Rightarrow> grid \<Rightarrow> real \<Rightarrow> nat \<Rightarrow> agent list \<times> rng \<times> int \<times> int
     \<Rightarrow> error + (agent list \<times> rng \<times> int \<times> int)" where
  "decide cfg grid grid_cell_size i = (\<lambda>(as, g, new_infections, current_infectious_agents).
     let as1 = upd i (\<lambda>a. a\<lparr>next_state := Some (state a)\<rparr>) as;
         as2 = upd i (\<lambda>a. a\<lparr>next_timer := state_timer a\<rparr>) as1
     in if state (as2 ! i) = D then Inr (as2, g, new_infections, current_infectious_agents)
        else
          let as3 = (if state (as2 ! i) = E \<or> state (as2 ! i) = I
                     then upd i (\<lambda>a. a\<lparr>next_timer := next_timer a - dt cfg\<rparr>) as2
                     else as2)
          in if state (as3 ! i) = S then
               decide_S cfg grid grid_cell_size i
                 (as3, g, new_infections, current_infectious_agents)
             else if state (as3 ! i) = E then
               decide_E cfg i (as3, g, new_infections, current_infectious_agents)
             else if state (as3 ! i) = I then
               decide_I cfg i (as3, g, new_infections, current_infectious_agents)
             else Inr (as3, g, new_infections, current_infectious_agents))"

definition decide_all ::
  "config \<Rightarrow> grid \<Rightarrow> real \<Rightarrow> agent list \<Rightarrow> rng \<Rightarrow> error + (agent list \<times> rng \<times> int \<times> int)" where
  "decide_all cfg grid grid_cell_size as g =
     foldM (decide cfg grid grid_cell_size) [0..<length as] (as, g, 0, 0)"

text \<open>
  4. Apply updates. Part 3 has assigned \<^verbatim>\<open>next_state\<close> of every agent; were it still
  \<^verbatim>\<open>None\<close>, the state would become \<^verbatim>\<open>None\<close> and \<^verbatim>\<open>counts[agent.state]\<close> in
  \<^verbatim>\<open>update_stats\<close> would raise \<^verbatim>\<open>KeyError\<close>.
\<close>

definition commit :: "real \<Rightarrow> agent \<Rightarrow> error + agent" where
  "commit h a =
     (case next_state a of
        None \<Rightarrow> Inl KeyError
      | Some s \<Rightarrow>
          if state a \<noteq> s
          then Inr (a\<lparr>state := s, state_timer := next_timer a, days_in_state := 0\<rparr>)
          else Inr (a\<lparr>state_timer := next_timer a, days_in_state := days_in_state a + h\<rparr>))"

fun commit_all :: "real \<Rightarrow> agent list \<Rightarrow> error + agent list" where
  "commit_all h [] = Inr []"
| "commit_all h (a # as) =
     (case commit h a of
        Inl e \<Rightarrow> Inl e
      | Inr a' \<Rightarrow> (case commit_all h as of Inl e \<Rightarrow> Inl e | Inr as' \<Rightarrow> Inr (a' # as')))"

text \<open>
  Parts 1 to 4 of \<^verbatim>\<open>step\<close>: the agents after the commit, the generators, and the two
  step-scoped counters that \<^verbatim>\<open>step\<close> hands to \<^verbatim>\<open>update_stats\<close>.
\<close>

definition transitions :: "sim \<Rightarrow> rng \<Rightarrow> error + (agent list \<times> rng \<times> int \<times> int)" where
  "transitions s g =
     (let cfg = config s;
          (as1, g1) = move_all cfg (agents s) g;
          grid_cell_size = max (interaction_radius cfg) 1;
          grid = build_grid grid_cell_size as1
      in case decide_all cfg grid grid_cell_size as1 g1 of
           Inl e \<Rightarrow> Inl e
         | Inr (as2, g2, new_infections, current_infectious_agents) \<Rightarrow>
             (case commit_all (dt cfg) as2 of
                Inl e \<Rightarrow> Inl e
              | Inr as3 \<Rightarrow> Inr (as3, g2, new_infections, current_infectious_agents)))"

definition step :: "sim \<Rightarrow> rng \<Rightarrow> error + (sim \<times> rng)" where
  "step s g =
     (case transitions s g of
        Inl e \<Rightarrow> Inl e
      | Inr (as3, g2, new_infections, current_infectious_agents) \<Rightarrow>
          (case update_stats (s\<lparr>agents := as3\<rparr>) new_infections current_infectious_agents of
             Inl e \<Rightarrow> Inl e
           | Inr s' \<Rightarrow> Inr (s', g2)))"

text \<open>\<open>n\<close> consecutive calls of \<^verbatim>\<open>step\<close>.\<close>

fun steps :: "nat \<Rightarrow> sim \<Rightarrow> rng \<Rightarrow> error + (sim \<times> rng)" where
  "steps 0 s g = Inr (s, g)"
| "steps (Suc n) s g =
     (case step s g of Inl e \<Rightarrow> Inl e | Inr (s', g') \<Rightarrow> steps n s' g')"

section \<open>Specification predicates\<close>

text \<open>
  The relations below describe what part 3 of \<^verbatim>\<open>step\<close> may do to the agent it
  processes; the auxiliary lemmas prove that the functions above stay within them.
  \<open>exposed\<close> is the effect of a successful transmission roll, \<open>pending_only\<close> the
  effect of a whole neighbour scan, \<open>frame P i\<close> says that a store differs from
  another one at position \<open>i\<close> only, and there by \<open>P\<close>. \<open>decided\<close> relates an agent
  before and after its iteration of part 3, \<open>agent_step\<close> before and after a whole
  \<^verbatim>\<open>step\<close>, and \<open>recorded s n\<close> says that the histories of \<open>s\<close> hold \<open>n\<close>
  snapshots, each of which counts every agent once.
\<close>

definition exposed :: "config \<Rightarrow> agent \<Rightarrow> agent \<Rightarrow> bool" where
  "exposed cfg a a' \<longleftrightarrow>
     (\<exists>z. a' = a\<lparr>next_state := Some E,
                   next_timer := max 0 (incubation_mean cfg + incubation_std cfg * z)\<rparr>)"

definition pending_only :: "config \<Rightarrow> agent \<Rightarrow> agent \<Rightarrow> bool" where
  "pending_only cfg a a' \<longleftrightarrow> (a' = a \<or> exposed cfg a a')"

definition frame :: "(agent \<Rightarrow> agent \<Rightarrow> bool) \<Rightarrow> nat \<Rightarrow> agent list \<Rightarrow> agent list \<Rightarrow> bool" where
  "frame P i as as' \<longleftrightarrow> (\<exists>a'. as' = as[i := a'] \<and> P (as ! i) a')"

definition infectious_timer :: "config \<Rightarrow> real \<Rightarrow> real" where
  "infectious_timer cfg z = max 0 (infectious_mean cfg + infectious_std cfg * z)"

definition decided :: "config \<Rightarrow> agent \<Rightarrow> agent \<Rightarrow> bool" where
  "decided cfg a a' \<longleftrightarrow>
     (case state a of
        S \<Rightarrow> a' = a\<lparr>next_state := Some S, next_timer := state_timer a\<rparr>
           \<or> a' = a\<lparr>next_state := Some R, next_timer := state_timer a\<rparr>
           \<or> (\<exists>z. a' = a\<lparr>next_state := Some E,
                      next_timer := max 0 (incubation_mean cfg + incubation_std cfg * z)\<rparr>)
      | E \<Rightarrow> if state_timer a - dt cfg \<le> 0
             then \<exists>z isolated. (is_isolated a \<longrightarrow> isolated) \<and>
                    a' = a\<lparr>is_isolated := isolated, next_state := Some I,
                          next_timer := infectious_timer cfg z\<rparr>
             else a' = a\<lparr>next_state := Some E, next_timer := state_timer a - dt cfg\<rparr>
      | I \<Rightarrow> if state_timer a - dt cfg \<le> 0
             then a' = a\<lparr>is_isolated := False, next_state := Some R,
                          next_timer := state_timer a - dt cfg\<rparr>
                \<or> a' = a\<lparr>is_isolated := False, next_state := Some D,
                          next_timer := state_timer a - dt cfg\<rparr>
             else a' = a\<lparr>next_state := Some I, next_timer := state_timer a - dt cfg\<rparr>
      | R \<Rightarrow> a' = a\<lparr>next_state := Some R, next_timer := state_timer a\<rparr>
      | D \<Rightarrow> a' = a\<lparr>next_state := Some D, next_timer := state_timer a\<rparr>)"

definition agent_step :: "config \<Rightarrow> agent \<Rightarrow> agent \<Rightarrow> bool" where
  "agent_step cfg a a'' \<longleftrightarrow>
     (\<exists>g a'. decided cfg
         (fst (move (grid_size cfg) (dt cfg) (home_attraction cfg) (random_force cfg) a g)) a'
        \<and> commit (dt cfg) a' = Inr a'')"

definition recorded :: "sim \<Rightarrow> nat \<Rightarrow> bool" where
  "recorded s n \<longleftrightarrow>
     length (rt_history s) = n \<and> (\<forall>key. length (stats s key) = n) \<and>
     (\<forall>t<n. stats s S ! t + stats s E ! t + stats s I ! t + stats s R ! t + stats s D ! t
              = int (length (agents s)))"

section \<open>Concrete configurations and populations\<close>

text \<open>
  \<open>test_config\<close> is the configuration of \<^verbatim>\<open>setUp\<close> in \<^verbatim>\<open>test_simulation.py\<close>;
  \<open>new_agent\<close> is the dataclass constructor \<^verbatim>\<open>Agent\<close> with its defaults, at rest
  at its home; \<open>const_rng u z\<close> lets every \<^verbatim>\<open>random.random()\<close> return \<open>u\<close> and every
  numpy variate be \<open>z\<close>; \<open>new_sim\<close> is a simulation with empty histories.
\<close>

definition test_config :: config where
  "test_config =
     \<lparr>N = 100, grid_size = 50, beta = 1,
      incubation_mean = 5, incubation_std = 0,
      infectious_mean = 7, infectious_std = 0,
      mortality_rate = 0, vax_rate = 0, interaction_radius = 2, dt = 1,
      home_attraction = 0, random_force = 0,
      isolation_compliance = 0, detection_prob = 0\<rparr>"

definition new_agent :: "int \<Rightarrow> real \<Rightarrow> real \<Rightarrow> agent" where
  "new_agent i px py =
     \<lparr>agent_id = i, x = px, y = py, vx = 0, vy = 0, home_x = px, home_y = py,
      infectiousness = 1, susceptibility = 1, state = S, state_timer = 0,
      days_in_state = 0, is_isolated = False, next_state = None, next_timer = 0\<rparr>"

definition const_rng :: "real \<Rightarrow> real \<Rightarrow> rng" where
  "const_rng u z = \<lparr>py_random = (\<lambda>_. u), np_random = (\<lambda>_. z)\<rparr>"

definition new_sim :: "config \<Rightarrow> agent list \<Rightarrow> sim" where
  "new_sim cfg as = \<lparr>config = cfg, agents = as, stats = (\<lambda>_. []), rt_history = []\<rparr>"

text \<open>
  A deceased agent with a velocity and the isolation flag set, next to an infectious one.
\<close>

definition deceased_sim :: sim where
  "deceased_sim =
     new_sim default_config
       [(new_agent 0 3 3)\<lparr>vx := 1, state := D, state_timer := 4, is_isolated := True\<rparr>,
        (new_agent 1 3 4)\<lparr>state := I, state_timer := 1\<rparr>]"

text \<open>
  The conditions under which, in the words of the specification, construction must
  succeed: positive population size and grid extent, positive period means and standard
  deviations, and the three probabilities within \<open>[0, 1]\<close>.
\<close>

definition valid_config :: "config \<Rightarrow> bool" where
  "valid_config cfg \<longleftrightarrow>
     0 < N cfg \<and> 0 < grid_size cfg
     \<and> 0 < incubation_mean cfg \<and> 0 < incubation_std cfg
     \<and> 0 < infectious_mean cfg \<and> 0 < infectious_std cfg
     \<and> 0 \<le> mortality_rate cfg \<and> mortality_rate cfg \<le> 1
     \<and> 0 \<le> detection_prob cfg \<and> detection_prob cfg \<le> 1
     \<and> 0 \<le> isolation_compliance cfg \<and> isolation_compliance cfg \<le> 1"

text \<open>
  A configuration with a negative grid extent, a mortality probability of five and a
  negative incubation standard deviation.
\<close>

definition invalid_config :: config where
  "invalid_config =
     default_config\<lparr>N := 2, grid_size := - 10, mortality_rate := 5, incubation_std := - 1\<rparr>"

text \<open>An infectious agent and a susceptible one at distance one, both at rest.\<close>

definition contact_sim :: sim where
  "contact_sim =
     new_sim test_config [(new_agent 0 3 3)\<lparr>state := I, state_timer := 7\<rparr>, new_agent 1 3 4]"

text \<open>A susceptible agent left of the grid, moving further left.\<close>

definition reflect_agent :: agent where
  "reflect_agent = (new_agent 0 (- 1) 5)\<lparr>vx := - 2\<rparr>"

text \<open>
  The population of \<^verbatim>\<open>test_isolation\<close>: detection and compliance certain, one exposed
  agent whose timer runs out in the next step.
\<close>

definition isolation_sim :: sim where
  "isolation_sim =
     new_sim (test_config\<lparr>detection_prob := 1, isolation_compliance := 1\<rparr>)
       [(new_agent 0 3 3)\<lparr>state := E, state_timer := 1\<rparr>]"

text \<open>
  The population of \<^verbatim>\<open>test_state_transitions_timer\<close>, reduced to three agents: an
  exposed agent with two days left, an infectious and a susceptible one.
\<close>

definition timer_sim :: sim where
  "timer_sim =
     new_sim test_config
       [(new_agent 0 3 3)\<lparr>state := E, state_timer := 2\<rparr>,
        (new_agent 1 3 4)\<lparr>state := I, state_timer := 7\<rparr>, new_agent 2 4 4]"

text \<open>
  Two populations of the same two agents in the two possible orders: an isolated
  infectious agent whose timer runs out in the next step, and a susceptible agent at
  distance one.
\<close>

definition isolated_first :: sim where
  "isolated_first =
     new_sim (test_config\<lparr>detection_prob := 1, isolation_compliance := 1\<rparr>)
       [(new_agent 0 3 3)\<lparr>state := I, state_timer := 1, is_isolated := True\<rparr>,
        new_agent 1 3 4]"

definition isolated_last :: sim where
  "isolated_last =
     new_sim (test_config\<lparr>detection_prob := 1, isolation_compliance := 1\<rparr>)
       [new_agent 1 3 4,
        (new_agent 0 3 3)\<lparr>state := I, state_timer := 1, is_isolated := True\<rparr>]"

text \<open>
  A susceptible agent in cell \<open>(1, 1)\<close> with an infectious neighbour in cell \<open>(1, 0)\<close>
  and another in cell \<open>(1, 2)\<close>, both at distance 1.5; the numpy variates are
  \<open>0, 1, 2, \<dots>\<close>, so that successive draws of the incubation timer differ.
\<close>

definition counting_rng :: rng where
  "counting_rng = \<lparr>py_random = (\<lambda>_. 1 / 2), np_random = (\<lambda>n. real n)\<rparr>"

definition exposure_sim :: sim where
  "exposure_sim =
     new_sim (test_config\<lparr>incubation_std := 1\<rparr>)
       [new_agent 0 3 3,
        (new_agent 1 3 (3 / 2))\<lparr>state := I, state_timer := 7\<rparr>,
        (new_agent 2 3 (9 / 2))\<lparr>state := I, state_timer := 7\<rparr>]"

section \<open>Auxiliary lemmas\<close>

subsection \<open>Stores\<close>

lemma length_upd [simp]: "length (upd i f as) = length as"
  by (simp add: upd_def)

lemma nth_upd_same [simp]: "i < length as \<Longrightarrow> upd i f as ! i = f (as ! i)"
  by (simp add: upd_def)

lemma nth_upd_other [simp]: "j \<noteq> i \<Longrightarrow> upd i f as ! j = as ! j"
  by (simp add: upd_def)

subsection \<open>Counting states and recording statistics\<close>

lemma count_states_fold:
  "fold (\<lambda>a counts. counts(state a := counts (state a) + 1)) as c k
     = c k + int (length (filter (\<lambda>a. state a = k) as))"
  by (induction as arbitrary: c) auto

lemma count_states_filter:
  "count_states as k = int (length (filter (\<lambda>a. state a = k) as))"
  by (simp add: count_states_def count_states_fold)

lemma state_partition:
  "length (filter (\<lambda>a. state a = S) as) + length (filter (\<lambda>a. state a = E) as)
   + length (filter (\<lambda>a. state a = I) as) + length (filter (\<lambda>a. state a = R) as)
   + length (filter (\<lambda>a. state a = D) as) = length as"
proof (induction as)
  case Nil
  show ?case by simp
next
  case (Cons a as)
  then show ?case by (cases "state a") simp_all
qed

lemma count_states_sum:
  "count_states as S + count_states as E + count_states as I + count_states as R
   + count_states as D = int (length as)"
  using state_partition [of as] by (simp add: count_states_filter)

lemma update_stats_rt:
  "update_stats s ni ci = Inr s' \<Longrightarrow>
   rt_history s' = rt_history s @
     [if ci > 0 then (real_of_int ni / dt (config s)) / real_of_int ci * infectious_mean (config s)
      else 0]"
  by (auto simp: update_stats_def Let_def split: if_splits)

lemma update_stats_fields:
  "update_stats s ni ci = Inr s' \<Longrightarrow>
   agents s' = agents s \<and> config s' = config s \<and>
   (\<forall>k. stats s' k = stats s k @ [count_states (agents s) k])"
  by (auto simp: update_stats_def Let_def split: if_splits)

lemma update_stats_total:
  "ci \<le> 0 \<or> dt (config s) \<noteq> 0 \<Longrightarrow> \<exists>s'. update_stats s ni ci = Inr s'"
  by (auto simp: update_stats_def Let_def)

lemma update_stats_error:
  "update_stats s ni ci = Inl e \<longleftrightarrow> (e = ZeroDivisionError \<and> ci > 0 \<and> dt (config s) = 0)"
  by (auto simp: update_stats_def Let_def)

subsection \<open>Motion\<close>

lemma move_frozen: "state a = D \<or> is_isolated a \<Longrightarrow> move gs h ha rf a g = (a, g)"
  by (simp add: move_def)

lemma stage_static [simp]:
  "state (attract ha h a) = state a" "state_timer (attract ha h a) = state_timer a"
  "is_isolated (attract ha h a) = is_isolated a" "agent_id (attract ha h a) = agent_id a"
  "state (random_walk rf h u1 u2 a) = state a"
  "state_timer (random_walk rf h u1 u2 a) = state_timer a"
  "is_isolated (random_walk rf h u1 u2 a) = is_isolated a"
  "agent_id (random_walk rf h u1 u2 a) = agent_id a"
  "state (damp a) = state a" "state_timer (damp a) = state_timer a"
  "is_isolated (damp a) = is_isolated a" "agent_id (damp a) = agent_id a"
  "state (update_position h a) = state a" "state_timer (update_position h a) = state_timer a"
  "is_isolated (update_position h a) = is_isolated a"
  "agent_id (update_position h a) = agent_id a"
  "state (bounce_x gs a) = state a" "state_timer (bounce_x gs a) = state_timer a"
  "is_isolated (bounce_x gs a) = is_isolated a" "agent_id (bounce_x gs a) = agent_id a"
  "state (bounce_y gs a) = state a" "state_timer (bounce_y gs a) = state_timer a"
  "is_isolated (bounce_y gs a) = is_isolated a" "agent_id (bounce_y gs a) = agent_id a"
  by (simp_all add: attract_def random_walk_def damp_def update_position_def
        bounce_x_def bounce_y_def Let_def)

lemma move_static:
  "state (fst (move gs h ha rf a g)) = state a"
  "state_timer (fst (move gs h ha rf a g)) = state_timer a"
  "is_isolated (fst (move gs h ha rf a g)) = is_isolated a"
  "agent_id (fst (move gs h ha rf a g)) = agent_id a"
  by (simp_all add: move_def Let_def split: prod.splits)

lemma move_all_Cons:
  "move_all cfg (a # as) g =
     (fst (move (grid_size cfg) (dt cfg) (home_attraction cfg) (random_force cfg) a g)
        # fst (move_all cfg as
                 (snd (move (grid_size cfg) (dt cfg) (home_attraction cfg) (random_force cfg) a g))),
      snd (move_all cfg as
             (snd (move (grid_size cfg) (dt cfg) (home_attraction cfg) (random_force cfg) a g))))"
  by (simp add: Let_def split: prod.splits)

lemma length_move_all [simp]: "length (fst (move_all cfg as g)) = length as"
  by (induction as arbitrary: g) (simp_all add: move_all_Cons del: move_all.simps(2))

lemma move_all_nth:
  "i < length as \<Longrightarrow>
   \<exists>g'. fst (move_all cfg as g) ! i
     = fst (move (grid_size cfg) (dt cfg) (home_attraction cfg) (random_force cfg) (as ! i) g')"
proof (induction as arbitrary: g i)
  case Nil
  then show ?case by simp
next
  case (Cons a as)
  show ?case
  proof (cases i)
    case 0
    have "fst (move_all cfg (a # as) g) ! 0
        = fst (move (grid_size cfg) (dt cfg) (home_attraction cfg) (random_force cfg) a g)"
      unfolding move_all_Cons by simp
    moreover have "(a # as) ! i = a" using 0 by simp
    ultimately show ?thesis using 0 by metis
  next
    case (Suc k)
    with Cons.prems have k: "k < length as" by simp
    have "fst (move_all cfg (a # as) g) ! Suc k
        = fst (move_all cfg as
                 (snd (move (grid_size cfg) (dt cfg) (home_attraction cfg) (random_force cfg) a g))) ! k"
      unfolding move_all_Cons by simp
    moreover from Cons.IH [OF k] obtain g' where
      "fst (move_all cfg as
              (snd (move (grid_size cfg) (dt cfg) (home_attraction cfg) (random_force cfg) a g))) ! k
       = fst (move (grid_size cfg) (dt cfg) (home_attraction cfg) (random_force cfg) (as ! k) g')"
      by blast
    moreover have "(a # as) ! i = as ! k" using Suc by simp
    ultimately show ?thesis using Suc by metis
  qed
qed

subsection \<open>The neighbour scan writes only the pending fields of its agent\<close>

lemma pending_only_refl [simp]: "pending_only cfg a a"
  by (simp add: pending_only_def)

lemma pending_only_trans:
  "pending_only cfg a b \<Longrightarrow> pending_only cfg b c \<Longrightarrow> pending_only cfg a c"
  by (auto simp: pending_only_def exposed_def)

lemma scan_neighbors_frame:
  "i < length as \<Longrightarrow> scan_neighbors cfg i js (as, g, ni) = Inr (as', g', ni') \<Longrightarrow>
   \<exists>a'. as' = as[i := a'] \<and> pending_only cfg (as ! i) a'"
proof (induction js arbitrary: g ni)
  case Nil
  then show ?case by (auto intro: exI [of _ "as ! i"])
next
  case (Cons j js)
  show ?case
  proof (cases "state (as ! j) = I \<and> \<not> is_isolated (as ! j)
      \<and> (x (as ! i) - x (as ! j))\<^sup>2 + (y (as ! i) - y (as ! j))\<^sup>2 \<le> (interaction_radius cfg)\<^sup>2")
    case False
    then have "scan_neighbors cfg i js (as, g, ni) = Inr (as', g', ni')"
      using Cons.prems(2) by (auto simp: Let_def split: if_splits)
    with Cons.IH Cons.prems(1) show ?thesis by blast
  next
    case True
    obtain u g1 where r: "random g = (u, g1)" by (cases "random g")
    show ?thesis
    proof (cases "u < beta cfg * infectiousness (as ! j) * susceptibility (as ! i) * dt cfg")
      case False
      with True r have "scan_neighbors cfg i js (as, g1, ni) = Inr (as', g', ni')"
        using Cons.prems(2) by (simp add: Let_def)
      with Cons.IH Cons.prems(1) show ?thesis by blast
    next
      case hit: True
      with True r Cons.prems(2) obtain t g2 where
        n: "normal (incubation_mean cfg) (incubation_std cfg) g1 = Inr (t, g2)"
        and res: "as' = upd i (\<lambda>a. a\<lparr>next_state := Some E, next_timer := max 0 t\<rparr>) as"
        by (auto simp: Let_def split: sum.splits)
      from n have t: "t = incubation_mean cfg + incubation_std cfg * np_random g1 0"
        by (auto simp: normal_def split: if_splits)
      have "exposed cfg (as ! i) ((as ! i)\<lparr>next_state := Some E, next_timer := max 0 t\<rparr>)"
        unfolding exposed_def t by (rule exI [of _ "np_random g1 0"]) simp
      then show ?thesis
        unfolding res upd_def pending_only_def by blast
    qed
  qed
qed

lemma frame_refl: "P (as ! i) (as ! i) \<Longrightarrow> frame P i as as"
  unfolding frame_def by (rule exI [of _ "as ! i"]) simp

lemma frame_length: "frame P i as as' \<Longrightarrow> length as' = length as"
  by (auto simp: frame_def)

lemma frame_other: "frame P i as as' \<Longrightarrow> j \<noteq> i \<Longrightarrow> as' ! j = as ! j"
  by (auto simp: frame_def)

lemma frame_at: "frame P i as as' \<Longrightarrow> i < length as \<Longrightarrow> P (as ! i) (as' ! i)"
  by (auto simp: frame_def)

lemma frame_trans:
  assumes "i < length as" "frame P i as as1" "frame Q i as1 as2"
    and "\<And>b. P (as ! i) b \<Longrightarrow> Q b (as2 ! i) \<Longrightarrow> T (as ! i) (as2 ! i)"
  shows "frame T i as as2"
proof -
  from assms(2) obtain a1 where a1: "as1 = as[i := a1]" "P (as ! i) a1"
    by (auto simp: frame_def)
  from assms(3) obtain a2 where a2: "as2 = as1[i := a2]" "Q (as1 ! i) a2"
    by (auto simp: frame_def)
  from a1 a2 assms(1) have eq: "as2 = as[i := a2]" "as1 ! i = a1" "as2 ! i = a2" by simp_all
  with assms(4) [of a1] a1 a2 have "T (as ! i) a2" by simp
  with eq show ?thesis by (auto simp: frame_def)
qed

lemma scan_neighbors_frame':
  "i < length as \<Longrightarrow> scan_neighbors cfg i js (as, g, ni) = Inr (as', g', ni') \<Longrightarrow>
   frame (pending_only cfg) i as as'"
  unfolding frame_def by (rule scan_neighbors_frame)

lemma scan_cell_frame:
  "i < length as \<Longrightarrow> scan_cell cfg grid i cx cy dx dy (as, g, ni) = Inr (as', g', ni') \<Longrightarrow>
   frame (pending_only cfg) i as as'"
  by (auto simp: scan_cell_def split: option.splits
      intro: frame_refl scan_neighbors_frame')

lemma scan_cells_frame:
  "i < length as \<Longrightarrow>
   foldM (scan_cell cfg grid i cx cy dx) dys (as, g, ni) = Inr (as', g', ni') \<Longrightarrow>
   frame (pending_only cfg) i as as'"
proof (induction dys arbitrary: as g ni)
  case Nil
  then show ?case by (auto intro: frame_refl)
next
  case (Cons dy dys)
  from Cons.prems(2) obtain as1 g1 ni1 where
    c: "scan_cell cfg grid i cx cy dx dy (as, g, ni) = Inr (as1, g1, ni1)"
    and r: "foldM (scan_cell cfg grid i cx cy dx) dys (as1, g1, ni1) = Inr (as', g', ni')"
    by (auto split: sum.splits)
  from scan_cell_frame [OF Cons.prems(1) c] have f1: "frame (pending_only cfg) i as as1" .
  then have "i < length as1" using Cons.prems(1) by (simp add: frame_length)
  from Cons.IH [OF this r] have f2: "frame (pending_only cfg) i as1 as'" .
  show ?case
    by (rule frame_trans [OF Cons.prems(1) f1 f2]) (rule pending_only_trans)
qed

lemma scan_dy_frame:
  "i < length as \<Longrightarrow> scan_dy cfg grid i cx cy dx (as, g, ni) = Inr (as', g', ni') \<Longrightarrow>
   frame (pending_only cfg) i as as'"
  unfolding scan_dy_def by (rule scan_cells_frame)

lemma scan_dx_frame:
  "i < length as \<Longrightarrow> scan_dx cfg grid i cx cy dxs (as, g, ni) = Inr (as', g', ni') \<Longrightarrow>
   frame (pending_only cfg) i as as'"
proof (induction dxs arbitrary: as g ni)
  case Nil
  then show ?case by (auto intro: frame_refl)
next
  case (Cons dx dxs)
  from Cons.prems(2) obtain as1 g1 ni1 where
    c: "scan_dy cfg grid i cx cy dx (as, g, ni) = Inr (as1, g1, ni1)"
    by (auto split: sum.splits)
  from scan_dy_frame [OF Cons.prems(1) c] have f1: "frame (pending_only cfg) i as as1" .
  then have l1: "i < length as1" using Cons.prems(1) by (simp add: frame_length)
  show ?case
  proof (cases "next_state (as1 ! i) = Some E")
    case True
    with c Cons.prems(2) have "as' = as1" by simp
    with f1 show ?thesis by simp
  next
    case False
    with c Cons.prems(2) have "scan_dx cfg grid i cx cy dxs (as1, g1, ni1) = Inr (as', g', ni')"
      by simp
    from Cons.IH [OF l1 this] have f2: "frame (pending_only cfg) i as1 as'" .
    show ?thesis
      by (rule frame_trans [OF Cons.prems(1) f1 f2]) (rule pending_only_trans)
  qed
qed

subsection \<open>One iteration of part 3\<close>

lemma pending_order [simp]:
  "a\<lparr>next_state := s, is_isolated := b\<rparr> = a\<lparr>is_isolated := b, next_state := s\<rparr>"
  "a\<lparr>next_timer := t, is_isolated := b\<rparr> = a\<lparr>is_isolated := b, next_timer := t\<rparr>"
  "a\<lparr>next_timer := t, next_state := s\<rparr> = a\<lparr>next_state := s, next_timer := t\<rparr>"
  by simp_all

lemma decide_D:
  assumes "i < length as" "state (as ! i) = D"
  shows "decide cfg grid c i (as, g, ni, ci)
    = Inr (as[i := (as ! i)\<lparr>next_state := Some D, next_timer := state_timer (as ! i)\<rparr>], g, ni, ci)"
  using assms by (simp add: decide_def Let_def upd_def)

lemma decide_R:
  assumes "i < length as" "state (as ! i) = R"
  shows "decide cfg grid c i (as, g, ni, ci)
    = Inr (as[i := (as ! i)\<lparr>next_state := Some R, next_timer := state_timer (as ! i)\<rparr>], g, ni, ci)"
  using assms by (simp add: decide_def Let_def upd_def)

lemma decide_I_frame:
  assumes "i < length as" "state (as ! i) = I"
    and "decide cfg grid c i (as, g, ni, ci) = Inr (as', g', ni', ci')"
  shows "frame (decided cfg) i as as' \<and> ni' = ni \<and> ci' = ci + 1"
proof -
  let ?a = "as ! i"
  show ?thesis
  proof (cases "state_timer ?a - dt cfg \<le> 0")
    case False
    with assms have "as' = as[i := ?a\<lparr>next_state := Some I, next_timer := state_timer ?a - dt cfg\<rparr>]"
      and "ni' = ni" "ci' = ci + 1"
      by (simp_all add: decide_def decide_I_def Let_def upd_def)
    with False assms(2) show ?thesis by (auto simp: frame_def decided_def)
  next
    case True
    obtain u g1 where r: "random g = (u, g1)" by (cases "random g")
    show ?thesis
    proof (cases "u < mortality_rate cfg")
      case dies: True
      with True r assms have
        "as' = as[i := ?a\<lparr>is_isolated := False, next_state := Some D,
                           next_timer := state_timer ?a - dt cfg\<rparr>]"
        and "ni' = ni" "ci' = ci + 1"
        by (simp_all add: decide_def decide_I_def Let_def upd_def)
      with True assms(2) show ?thesis by (auto simp: frame_def decided_def)
    next
      case False
      with True r assms have
        "as' = as[i := ?a\<lparr>is_isolated := False, next_state := Some R,
                           next_timer := state_timer ?a - dt cfg\<rparr>]"
        and "ni' = ni" "ci' = ci + 1"
        by (simp_all add: decide_def decide_I_def Let_def upd_def)
      with True assms(2) show ?thesis by (auto simp: frame_def decided_def)
    qed
  qed
qed

lemma decide_E_reduce:
  assumes "i < length as" "state (as ! i) = E"
  shows "decide cfg grid c i (as, g, ni, ci)
    = decide_E cfg i
        (as[i := (as ! i)\<lparr>next_state := Some E, next_timer := state_timer (as ! i) - dt cfg\<rparr>],
         g, ni, ci)"
  using assms by (simp add: decide_def Let_def upd_def)

lemma decide_E_stay:
  assumes "i < length as" "state (as ! i) = E" "\<not> state_timer (as ! i) - dt cfg \<le> 0"
  shows "decide cfg grid c i (as, g, ni, ci)
    = Inr (as[i := (as ! i)\<lparr>next_state := Some E, next_timer := state_timer (as ! i) - dt cfg\<rparr>],
           g, ni, ci)"
  unfolding decide_E_reduce [OF assms(1,2)] using assms by (simp add: decide_E_def)

lemma decide_E_leave:
  assumes "i < length as" "state (as ! i) = E" "state_timer (as ! i) - dt cfg \<le> 0"
    and "0 \<le> infectious_std cfg"
  shows "decide cfg grid c i (as, g, ni, ci)
    = Inr (as[i := (as ! i)\<lparr>is_isolated := (is_isolated (as ! i) \<or>
                 py_random g 0 < detection_prob cfg \<and> py_random g 1 < isolation_compliance cfg),
               next_state := Some I, next_timer := infectious_timer cfg (np_random g 0)\<rparr>],
           (if py_random g 0 < detection_prob cfg
            then g\<lparr>py_random := rest (rest (py_random g)), np_random := rest (np_random g)\<rparr>
            else g\<lparr>py_random := rest (py_random g), np_random := rest (np_random g)\<rparr>),
           ni, ci)"
proof -
  let ?as2 = "as[i := (as ! i)\<lparr>next_state := Some E, next_timer := state_timer (as ! i) - dt cfg\<rparr>]"
  have nt: "next_timer (?as2 ! i) \<le> 0" using assms(1,3) by simp
  have n: "normal (infectious_mean cfg) (infectious_std cfg) g
    = Inr (infectious_mean cfg + infectious_std cfg * np_random g 0,
           g\<lparr>np_random := rest (np_random g)\<rparr>)"
    using assms(4) by (simp add: normal_def)
  show ?thesis
    unfolding decide_E_reduce [OF assms(1,2)] decide_E_def
    using nt assms(1)
    by (simp add: n random_def upd_def infectious_timer_def rest_def Let_def)
qed

lemma decide_E_error:
  assumes "i < length as" "state (as ! i) = E" "state_timer (as ! i) - dt cfg \<le> 0"
    and "infectious_std cfg < 0"
  shows "decide cfg grid c i (as, g, ni, ci) = Inl ValueError"
  unfolding decide_E_reduce [OF assms(1,2)] decide_E_def
  using assms by (simp add: normal_def)

lemma decide_E_frame:
  assumes "i < length as" "state (as ! i) = E"
    and "decide cfg grid c i (as, g, ni, ci) = Inr (as', g', ni', ci')"
  shows "frame (decided cfg) i as as' \<and> ni' = ni \<and> ci' = ci"
proof -
  let ?a = "as ! i"
  show ?thesis
  proof (cases "state_timer ?a - dt cfg \<le> 0")
    case False
    with assms decide_E_stay [OF assms(1,2) False, of grid c g ni ci]
    have "as' = as[i := ?a\<lparr>next_state := Some E, next_timer := state_timer ?a - dt cfg\<rparr>]"
      and "ni' = ni" "ci' = ci"
      by simp_all
    with False assms(2) show ?thesis by (auto simp: frame_def decided_def)
  next
    case True
    have std: "0 \<le> infectious_std cfg"
      using decide_E_error [OF assms(1,2) True, of grid c g ni ci] assms(3)
      by (cases "0 \<le> infectious_std cfg") simp_all
    define isolated where "isolated \<longleftrightarrow> (is_isolated ?a \<or>
        py_random g 0 < detection_prob cfg \<and> py_random g 1 < isolation_compliance cfg)"
    from assms(3) decide_E_leave [OF assms(1,2) True std, of grid c g ni ci]
    have "as' = as[i := ?a\<lparr>is_isolated := isolated,
               next_state := Some I, next_timer := infectious_timer cfg (np_random g 0)\<rparr>]"
      and "ni' = ni" "ci' = ci"
      unfolding isolated_def by simp_all
    moreover have "decided cfg ?a (?a\<lparr>is_isolated := isolated,
               next_state := Some I, next_timer := infectious_timer cfg (np_random g 0)\<rparr>)"
    proof -
      have "\<exists>z b. (is_isolated ?a \<longrightarrow> b) \<and>
          ?a\<lparr>is_isolated := isolated, next_state := Some I,
              next_timer := infectious_timer cfg (np_random g 0)\<rparr>
          = ?a\<lparr>is_isolated := b, next_state := Some I, next_timer := infectious_timer cfg z\<rparr>"
        by (rule exI [of _ "np_random g 0"], rule exI [of _ isolated]) (simp add: isolated_def)
      with True assms(2) show ?thesis unfolding decided_def by simp
    qed
    ultimately show ?thesis
      unfolding frame_def by blast
  qed
qed

lemma decide_S_frame:
  assumes "i < length as" "state (as ! i) = S"
    and "decide cfg grid c i (as, g, ni, ci) = Inr (as', g', ni', ci')"
  shows "frame (decided cfg) i as as' \<and> ci' = ci"
proof -
  let ?a1 = "(as ! i)\<lparr>next_state := Some S, next_timer := state_timer (as ! i)\<rparr>"
  let ?as1 = "as[i := ?a1]"
  have l1: "i < length ?as1" using assms(1) by simp
  have a1: "?as1 ! i = ?a1" using assms(1) by simp
  from assms have d: "decide_S cfg grid c i (?as1, g, ni, ci) = Inr (as', g', ni', ci')"
    by (simp add: decide_def Let_def upd_def)
  obtain u g1 where r: "random g = (u, g1)" by (cases "random g")
  show ?thesis
  proof (cases "u < vax_rate cfg * dt cfg")
    case True
    with d r assms(1) have
      "as' = as[i := (as ! i)\<lparr>next_state := Some R, next_timer := state_timer (as ! i)\<rparr>]"
      and "ci' = ci"
      by (simp_all add: decide_S_def upd_def)
    with assms(2) show ?thesis by (auto simp: frame_def decided_def)
  next
    case False
    define cx where "cx = py_int (x (?as1 ! i) / c)"
    define cy where "cy = py_int (y (?as1 ! i) / c)"
    from False d r have
      "(case scan_dx cfg grid i cx cy [- 1, 0, 1] (?as1, g1, ni) of
          Inl e \<Rightarrow> Inl e
        | Inr (bs, g2, m) \<Rightarrow> Inr (bs, g2, m, ci)) = Inr (as', g', ni', ci')"
      unfolding decide_S_def cx_def cy_def by (simp add: Let_def del: scan_dx.simps)
    then have
      sc: "scan_dx cfg grid i cx cy [- 1, 0, 1] (?as1, g1, ni) = Inr (as', g', ni')"
      and ci: "ci' = ci"
      by (cases "scan_dx cfg grid i cx cy [- 1, 0, 1] (?as1, g1, ni)"; auto simp del: scan_dx.simps)+
    from scan_dx_frame [OF l1 sc] obtain a' where
      a': "as' = ?as1[i := a']" "pending_only cfg (?as1 ! i) a'"
      by (auto simp: frame_def)
    from a'(1) have eq: "as' = as[i := a']" by simp
    from a'(2) a1 have "pending_only cfg ?a1 a'" by simp
    with assms(2) have "decided cfg (as ! i) a'"
      by (auto simp: pending_only_def exposed_def decided_def)
    with eq ci show ?thesis by (auto simp: frame_def)
  qed
qed

lemma decide_frame:
  assumes "i < length as"
    and "decide cfg grid c i (as, g, ni, ci) = Inr (as', g', ni', ci')"
  shows "frame (decided cfg) i as as'"
    and "ci' = (if state (as ! i) = I then ci + 1 else ci)"
proof -
  have "frame (decided cfg) i as as' \<and> ci' = (if state (as ! i) = I then ci + 1 else ci)"
  proof (cases "state (as ! i)")
    case S
    with decide_S_frame [OF assms(1) S assms(2)] show ?thesis by simp
  next
    case E
    with decide_E_frame [OF assms(1) E assms(2)] show ?thesis by simp
  next
    case I
    with decide_I_frame [OF assms(1) I assms(2)] show ?thesis by simp
  next
    case R
    with assms(2) decide_R [OF assms(1) R, of cfg grid c g ni ci] show ?thesis
      by (auto simp: frame_def decided_def)
  next
    case D
    with assms(2) decide_D [OF assms(1) D, of cfg grid c g ni ci] show ?thesis
      by (auto simp: frame_def decided_def)
  qed
  then show "frame (decided cfg) i as as'"
    and "ci' = (if state (as ! i) = I then ci + 1 else ci)" by simp_all
qed

subsection \<open>The whole of part 3, and the commit\<close>

lemma decide_fold:
  assumes "foldM (decide cfg grid c) js (as, g, ni, ci) = Inr (as', g', ni', ci')"
    and "\<forall>j\<in>set js. j < length as" and "distinct js"
  shows "length as' = length as
    \<and> (\<forall>k<length as. if k \<in> set js then decided cfg (as ! k) (as' ! k) else as' ! k = as ! k)
    \<and> ci' = ci + int (length (filter (\<lambda>j. state (as ! j) = I) js))"
  using assms
proof (induction js arbitrary: as g ni ci)
  case Nil
  then show ?case by simp
next
  case (Cons j js)
  from Cons.prems(1) obtain as1 g1 ni1 ci1 where
    d: "decide cfg grid c j (as, g, ni, ci) = Inr (as1, g1, ni1, ci1)"
    and r: "foldM (decide cfg grid c) js (as1, g1, ni1, ci1) = Inr (as', g', ni', ci')"
    by (auto split: sum.splits)
  from Cons.prems(2) have j: "j < length as" by simp
  note f = decide_frame [OF j d]
  have len: "length as1 = length as" using f(1) by (rule frame_length)
  have other: "\<And>k. k \<noteq> j \<Longrightarrow> as1 ! k = as ! k" using f(1) by (rule frame_other)
  have at: "decided cfg (as ! j) (as1 ! j)" using f(1) j by (rule frame_at)
  from Cons.prems(2,3) len have p: "\<forall>k\<in>set js. k < length as1" "distinct js" "j \<notin> set js"
    by simp_all
  note IH = Cons.IH [OF r p(1,2)]
  have same: "filter (\<lambda>k. state (as1 ! k) = I) js = filter (\<lambda>k. state (as ! k) = I) js"
  proof (intro filter_cong refl)
    fix k assume "k \<in> set js"
    with p(3) have "k \<noteq> j" by auto
    from other [OF this] show "(state (as1 ! k) = I) = (state (as ! k) = I)" by simp
  qed
  have "length as' = length as" using IH len by simp
  moreover have "\<forall>k<length as.
      if k \<in> set (j # js) then decided cfg (as ! k) (as' ! k) else as' ! k = as ! k"
  proof (intro allI impI)
    fix k assume k: "k < length as"
    with IH len have *: "if k \<in> set js then decided cfg (as1 ! k) (as' ! k) else as' ! k = as1 ! k"
      by simp
    show "if k \<in> set (j # js) then decided cfg (as ! k) (as' ! k) else as' ! k = as ! k"
    proof (cases "k = j")
      case True
      with * p(3) at show ?thesis by simp
    next
      case False
      with * other [OF False] show ?thesis by (auto split: if_splits)
    qed
  qed
  moreover have "ci' = ci + int (length (filter (\<lambda>k. state (as ! k) = I) (j # js)))"
    using IH f(2) same by simp
  ultimately show ?case by blast
qed

lemma filter_index_length:
  "length (filter (\<lambda>j. P (as ! j)) [0..<length as]) = length (filter P as)"
proof -
  have "filter P as = filter P (map ((!) as) [0..<length as])" by (simp add: map_nth)
  also have "\<dots> = map ((!) as) (filter (\<lambda>j. P (as ! j)) [0..<length as])"
    by (simp add: filter_map o_def)
  finally show ?thesis by simp
qed

lemma decide_all_result:
  assumes "decide_all cfg grid c as g = Inr (as', g', ni, ci)"
  shows "length as' = length as"
    and "\<And>k. k < length as \<Longrightarrow> decided cfg (as ! k) (as' ! k)"
    and "ci = int (length (filter (\<lambda>a. state a = I) as))"
proof -
  from assms have "foldM (decide cfg grid c) [0..<length as] (as, g, 0, 0) = Inr (as', g', ni, ci)"
    by (simp add: decide_all_def)
  from decide_fold [OF this] have
    *: "length as' = length as
    \<and> (\<forall>k<length as. if k \<in> set [0..<length as] then decided cfg (as ! k) (as' ! k)
          else as' ! k = as ! k)
    \<and> ci = 0 + int (length (filter (\<lambda>j. state (as ! j) = I) [0..<length as]))"
    by simp
  from * show "length as' = length as" by blast
  from * show "\<And>k. k < length as \<Longrightarrow> decided cfg (as ! k) (as' ! k)" by simp
  from * show "ci = int (length (filter (\<lambda>a. state a = I) as))"
    by (simp add: filter_index_length [of "\<lambda>a. state a = I"])
qed

lemma commit_all_result:
  "commit_all h as = Inr as' \<Longrightarrow>
   length as' = length as \<and> (\<forall>k<length as. commit h (as ! k) = Inr (as' ! k))"
proof (induction as arbitrary: as')
  case Nil
  then show ?case by simp
next
  case (Cons a as)
  from Cons.prems obtain b bs where
    b: "commit h a = Inr b" and bs: "commit_all h as = Inr bs" and eq: "as' = b # bs"
    by (auto split: sum.splits)
  from Cons.IH [OF bs] b eq show ?case
    by (auto simp: nth_Cons split: nat.splits)
qed

lemma commit_all_total:
  "\<forall>a\<in>set as. next_state a \<noteq> None \<Longrightarrow> \<exists>as'. commit_all h as = Inr as'"
proof (induction as)
  case Nil
  show ?case by simp
next
  case (Cons a as)
  then obtain bs where "commit_all h as = Inr bs" by auto
  moreover have "\<exists>b. commit h a = Inr b"
    using Cons.prems by (cases "next_state a") (simp_all add: commit_def)
  then obtain b where "commit h a = Inr b" ..
  ultimately show ?case by simp
qed

lemma decided_next_state: "decided cfg a a' \<Longrightarrow> next_state a' \<noteq> None"
  by (cases "state a") (auto simp: decided_def split: if_splits)

subsection \<open>Part 3 returns whenever numpy accepts the scales\<close>

lemma foldM_total:
  assumes "\<And>a b. \<exists>b'. f a b = Inr b'"
  shows "\<exists>b'. foldM f as b = Inr b'"
proof (induction as arbitrary: b)
  case Nil
  show ?case by simp
next
  case (Cons a as)
  from assms obtain b1 where "f a b = Inr b1" by blast
  with Cons.IH [of b1] show ?case by simp
qed

lemma normal_total: "0 \<le> scale \<Longrightarrow> \<exists>r. normal loc scale g = Inr r"
  by (simp add: normal_def)

lemma scan_neighbors_total:
  assumes "0 \<le> incubation_std cfg"
  shows "\<exists>st'. scan_neighbors cfg i js (as, g, ni) = Inr st'"
proof (induction js arbitrary: g ni)
  case Nil
  show ?case by simp
next
  case (Cons j js)
  obtain u g1 where r: "random g = (u, g1)" by (cases "random g")
  from normal_total [OF assms] obtain t g2 where
    n: "normal (incubation_mean cfg) (incubation_std cfg) g1 = Inr (t, g2)" by fastforce
  from Cons.IH [of g ni] Cons.IH [of g1 ni] r n show ?case
    by (auto simp: Let_def)
qed

lemma scan_cell_total:
  assumes "0 \<le> incubation_std cfg"
  shows "\<exists>st'. scan_cell cfg grid i cx cy dx dy st = Inr st'"
proof -
  obtain as g ni where st: "st = (as, g, ni)" by (cases st rule: prod_cases3)
  with scan_neighbors_total [OF assms] show ?thesis
    by (cases "grid (cx + dx, cy + dy)") (simp_all add: scan_cell_def)
qed

lemma scan_dy_total:
  assumes "0 \<le> incubation_std cfg"
  shows "\<exists>st'. scan_dy cfg grid i cx cy dx st = Inr st'"
  unfolding scan_dy_def by (rule foldM_total) (rule scan_cell_total [OF assms])

lemma scan_dx_total:
  assumes "0 \<le> incubation_std cfg"
  shows "\<exists>st'. scan_dx cfg grid i cx cy dxs st = Inr st'"
proof (induction dxs arbitrary: st)
  case Nil
  show ?case by (rule exI [of _ st]) simp
next
  case (Cons dx dxs)
  from scan_dy_total [OF assms] obtain as1 g1 ni1 where
    d: "scan_dy cfg grid i cx cy dx st = Inr (as1, g1, ni1)" by (metis prod_cases3)
  with Cons.IH [of "(as1, g1, ni1)"] show ?case by auto
qed

lemma decide_S_total:
  assumes "0 \<le> incubation_std cfg"
  shows "\<exists>st'. decide_S cfg grid c i (as, g, ni, ci) = Inr st'"
proof -
  obtain u g1 where r: "random g = (u, g1)" by (cases "random g")
  from scan_dx_total [OF assms] obtain as' g' ni' where
    "scan_dx cfg grid i (py_int (x (as ! i) / c)) (py_int (y (as ! i) / c)) [- 1, 0, 1] (as, g1, ni)
      = Inr (as', g', ni')" by (metis prod_cases3)
  with r show ?thesis
    by (simp add: decide_S_def Let_def del: scan_dx.simps)
qed

lemma decide_E_total:
  assumes "0 \<le> infectious_std cfg"
  shows "\<exists>st'. decide_E cfg i (as, g, ni, ci) = Inr st'"
  using assms by (simp add: decide_E_def normal_def Let_def split: prod.splits)

lemma decide_I_total: "\<exists>st'. decide_I cfg i (as, g, ni, ci) = Inr st'"
  by (simp add: decide_I_def Let_def split: prod.splits)

lemma decide_total:
  assumes "0 \<le> incubation_std cfg" "0 \<le> infectious_std cfg"
  shows "\<exists>st'. decide cfg grid c i st = Inr st'"
proof -
  obtain as g ni ci where st: "st = (as, g, ni, ci)" by (cases st rule: prod_cases4)
  show ?thesis
    unfolding st decide_def
    using decide_S_total [OF assms(1)] decide_E_total [OF assms(2)] decide_I_total
    by (simp add: Let_def)
qed

lemma decide_all_total:
  assumes "0 \<le> incubation_std cfg" "0 \<le> infectious_std cfg"
  shows "\<exists>as' g' ni ci. decide_all cfg grid c as g = Inr (as', g', ni, ci)"
proof -
  from foldM_total [of "decide cfg grid c", OF decide_total [OF assms]]
  obtain r where "decide_all cfg grid c as g = Inr r"
    unfolding decide_all_def by blast
  then show ?thesis by (cases r rule: prod_cases4) auto
qed

subsection \<open>A whole step\<close>

lemma move_all_infectious:
  "length (filter (\<lambda>a. state a = I) (fst (move_all cfg as g)))
   = length (filter (\<lambda>a. state a = I) as)"
  by (induction as arbitrary: g)
     (simp_all add: move_all_Cons move_static del: move_all.simps(2))

lemma transitions_unfold:
  "transitions s g =
     (case decide_all (config s)
             (build_grid (max (interaction_radius (config s)) 1)
                (fst (move_all (config s) (agents s) g)))
             (max (interaction_radius (config s)) 1)
             (fst (move_all (config s) (agents s) g))
             (snd (move_all (config s) (agents s) g)) of
        Inl e \<Rightarrow> Inl e
      | Inr (as2, g2, ni, ci) \<Rightarrow>
          (case commit_all (dt (config s)) as2 of
             Inl e \<Rightarrow> Inl e
           | Inr as3 \<Rightarrow> Inr (as3, g2, ni, ci)))"
  by (simp add: transitions_def Let_def split: prod.splits)

lemma transitions_result:
  assumes "transitions s g = Inr (as3, g2, ni, ci)"
  shows "length as3 = length (agents s)"
    and "\<And>k. k < length (agents s) \<Longrightarrow> agent_step (config s) (agents s ! k) (as3 ! k)"
    and "ci = int (length (filter (\<lambda>a. state a = I) (agents s)))"
proof -
  let ?cfg = "config s"
  let ?as1 = "fst (move_all ?cfg (agents s) g)"
  let ?c = "max (interaction_radius ?cfg) 1"
  from assms obtain as2 where
    d: "decide_all ?cfg (build_grid ?c ?as1) ?c ?as1 (snd (move_all ?cfg (agents s) g))
          = Inr (as2, g2, ni, ci)"
    and c: "commit_all (dt ?cfg) as2 = Inr as3"
    unfolding transitions_unfold by (auto split: sum.splits)
  note dr = decide_all_result [OF d]
  note cr = commit_all_result [OF c]
  show "length as3 = length (agents s)" using dr(1) cr by simp
  show "ci = int (length (filter (\<lambda>a. state a = I) (agents s)))"
    using dr(3) by (simp add: move_all_infectious)
  show "agent_step (config s) (agents s ! k) (as3 ! k)" if k: "k < length (agents s)" for k
  proof -
    from move_all_nth [OF k, of ?cfg g] obtain gk where
      m: "?as1 ! k = fst (move (grid_size ?cfg) (dt ?cfg) (home_attraction ?cfg)
                            (random_force ?cfg) (agents s ! k) gk)" by blast
    from k have "decided ?cfg (?as1 ! k) (as2 ! k)" by (intro dr(2)) simp
    moreover from k cr dr(1) have "commit (dt ?cfg) (as2 ! k) = Inr (as3 ! k)" by simp
    ultimately show ?thesis unfolding agent_step_def m by blast
  qed
qed

lemma transitions_total:
  assumes "0 \<le> incubation_std (config s)" "0 \<le> infectious_std (config s)"
  shows "\<exists>as3 g2 ni ci. transitions s g = Inr (as3, g2, ni, ci)"
proof -
  let ?cfg = "config s"
  let ?as1 = "fst (move_all ?cfg (agents s) g)"
  let ?c = "max (interaction_radius ?cfg) 1"
  from decide_all_total [OF assms] obtain as2 g2 ni ci where
    d: "decide_all ?cfg (build_grid ?c ?as1) ?c ?as1 (snd (move_all ?cfg (agents s) g))
          = Inr (as2, g2, ni, ci)" by blast
  note dr = decide_all_result [OF d]
  have "\<forall>a\<in>set as2. next_state a \<noteq> None"
  proof
    fix a assume "a \<in> set as2"
    then obtain k where k: "k < length as2" "a = as2 ! k" by (auto simp: in_set_conv_nth)
    with dr(1) have "decided ?cfg (?as1 ! k) a" by (simp add: dr(2))
    then show "next_state a \<noteq> None" by (rule decided_next_state)
  qed
  from commit_all_total [OF this] obtain as3 where "commit_all (dt ?cfg) as2 = Inr as3" by blast
  with d show ?thesis unfolding transitions_unfold by simp
qed

lemma step_result:
  assumes "step s g = Inr (s', g')"
  shows "config s' = config s"
    and "length (agents s') = length (agents s)"
    and "\<And>k. k < length (agents s) \<Longrightarrow> agent_step (config s) (agents s ! k) (agents s' ! k)"
    and "\<And>key. stats s' key = stats s key @ [count_states (agents s') key]"
    and "length (rt_history s') = Suc (length (rt_history s))"
proof -
  from assms obtain as3 ni ci where
    t: "transitions s g = Inr (as3, g', ni, ci)"
    and u: "update_stats (s\<lparr>agents := as3\<rparr>) ni ci = Inr s'"
    by (auto simp: step_def split: sum.splits)
  note tr = transitions_result [OF t]
  note uf = update_stats_fields [OF u]
  from uf show "config s' = config s" by simp
  from uf tr(1) show "length (agents s') = length (agents s)" by simp
  from uf tr(2) show "\<And>k. k < length (agents s) \<Longrightarrow>
      agent_step (config s) (agents s ! k) (agents s' ! k)" by simp
  from uf show "\<And>key. stats s' key = stats s key @ [count_states (agents s') key]" by simp
  from update_stats_rt [OF u] show "length (rt_history s') = Suc (length (rt_history s))" by simp
qed

lemma step_total:
  assumes "0 \<le> incubation_std (config s)" "0 \<le> infectious_std (config s)"
    and "dt (config s) \<noteq> 0"
  shows "\<exists>s' g'. step s g = Inr (s', g')"
proof -
  from transitions_total [OF assms(1,2)] obtain as3 g2 ni ci where
    t: "transitions s g = Inr (as3, g2, ni, ci)" by blast
  from assms(3) have "ci \<le> 0 \<or> dt (config (s\<lparr>agents := as3\<rparr>)) \<noteq> 0" by simp
  from update_stats_total [OF this] obtain s' where
    "update_stats (s\<lparr>agents := as3\<rparr>) ni ci = Inr s'" by blast
  with t show ?thesis by (simp add: step_def)
qed

subsection \<open>One agent through a step\<close>

lemma commit_fields:
  assumes "commit h a = Inr a'"
  shows "next_state a = Some (state a')" "state_timer a' = next_timer a"
    "is_isolated a' = is_isolated a" "x a' = x a" "y a' = y a" "vx a' = vx a" "vy a' = vy a"
    "agent_id a' = agent_id a"
  using assms by (auto simp: commit_def split: option.splits if_splits)

lemma agent_step_D:
  assumes "agent_step cfg a a'" "state a = D"
  shows "state a' = D" "state_timer a' = state_timer a" "x a' = x a" "y a' = y a"
    "is_isolated a' = is_isolated a" "vx a' = vx a" "vy a' = vy a"
proof -
  from assms(1) obtain g a1 where
    d: "decided cfg (fst (move (grid_size cfg) (dt cfg) (home_attraction cfg) (random_force cfg) a g)) a1"
    and c: "commit (dt cfg) a1 = Inr a'"
    unfolding agent_step_def by blast
  from assms(2) d have a1: "a1 = a\<lparr>next_state := Some D, next_timer := state_timer a\<rparr>"
    by (simp add: move_frozen decided_def)
  note cf = commit_fields [OF c]
  from cf(1) a1 show "state a' = D" by simp
  from cf(2) a1 show "state_timer a' = state_timer a" by simp
  from cf a1 show "x a' = x a" "y a' = y a" "is_isolated a' = is_isolated a"
    "vx a' = vx a" "vy a' = vy a" by simp_all
qed

lemma agent_step_cases:
  assumes "agent_step cfg a a'"
  obtains a0 a1 where "state a0 = state a" "state_timer a0 = state_timer a"
    "is_isolated a0 = is_isolated a" "agent_id a0 = agent_id a"
    "decided cfg a0 a1" "commit (dt cfg) a1 = Inr a'"
proof -
  from assms obtain g a1 where
    d: "decided cfg (fst (move (grid_size cfg) (dt cfg) (home_attraction cfg) (random_force cfg) a g)) a1"
    and c: "commit (dt cfg) a1 = Inr a'"
    unfolding agent_step_def by blast
  show thesis
    by (rule that [OF _ _ _ _ d c]) (simp_all add: move_static)
qed

lemma agent_step_id: "agent_step cfg a a' \<Longrightarrow> agent_id a' = agent_id a"
  by (erule agent_step_cases, cases "state a")
     (auto simp: decided_def dest!: commit_fields(8) split: if_splits)

lemma agent_step_isolated:
  assumes "agent_step cfg a a'" "is_isolated a \<longrightarrow> state a = I"
  shows "is_isolated a' \<longrightarrow> state a' = I"
proof -
  from assms(1) obtain a0 a1 where
    a0: "state a0 = state a" "is_isolated a0 = is_isolated a"
    and d: "decided cfg a0 a1" and c: "commit (dt cfg) a1 = Inr a'"
    by (rule agent_step_cases)
  note cf = commit_fields(1,3) [OF c]
  show ?thesis
  proof (cases "state a")
    case S
    with a0 d assms(2) cf show ?thesis by (auto simp: decided_def)
  next
    case E
    with a0 d assms(2) cf show ?thesis by (auto simp: decided_def split: if_splits)
  next
    case I
    with a0 d assms(2) cf show ?thesis by (auto simp: decided_def split: if_splits)
  next
    case R
    with a0 d assms(2) cf show ?thesis by (auto simp: decided_def)
  next
    case D
    with a0 d assms(2) cf show ?thesis by (auto simp: decided_def)
  qed
qed

lemma agent_step_state:
  assumes "agent_step cfg a a'"
  shows "case state a of
           S \<Rightarrow> state a' = S \<or> state a' = R \<or> state a' = E
         | E \<Rightarrow> if state_timer a - dt cfg \<le> 0
                then state a' = I \<and> (\<exists>z. state_timer a' = infectious_timer cfg z)
                else state a' = E \<and> state_timer a' = state_timer a - dt cfg
         | I \<Rightarrow> if state_timer a - dt cfg \<le> 0
                then (state a' = R \<or> state a' = D) \<and> \<not> is_isolated a'
                else state a' = I \<and> state_timer a' = state_timer a - dt cfg
                  \<and> is_isolated a' = is_isolated a
         | R \<Rightarrow> state a' = R
         | D \<Rightarrow> state a' = D"
proof -
  from assms(1) obtain a0 a1 where
    a0: "state a0 = state a" "state_timer a0 = state_timer a" "is_isolated a0 = is_isolated a"
    and d: "decided cfg a0 a1" and c: "commit (dt cfg) a1 = Inr a'"
    by (rule agent_step_cases)
  note cf = commit_fields(1,2,3) [OF c]
  show ?thesis
  proof (cases "state a")
    case S
    with a0 d cf show ?thesis by (auto simp: decided_def)
  next
    case E
    with a0 d cf show ?thesis by (auto simp: decided_def split: if_splits)
  next
    case I
    with a0 d cf show ?thesis by (auto simp: decided_def split: if_splits)
  next
    case R
    with a0 d cf show ?thesis by (auto simp: decided_def)
  next
    case D
    with a0 d cf show ?thesis by (auto simp: decided_def)
  qed
qed

subsection \<open>Construction\<close>

lemma init_agent_S:
  assumes "\<not> i < 1"
  shows "\<exists>a g'. init_agent cfg i (as, g) = Inr (as @ [a], g') \<and> agent_id a = i
    \<and> state a = S \<and> state_timer a = 0 \<and> \<not> is_isolated a"
  using assms
  by (simp add: init_agent_def uniform_def random_def gamma_def Let_def split: prod.splits)

lemma init_agent_I:
  assumes "i < 1" "0 \<le> infectious_std cfg"
  shows "\<exists>a g'. init_agent cfg i (as, g) = Inr (as @ [a], g') \<and> agent_id a = i
    \<and> state a = I \<and> state_timer a = infectious_timer cfg (np_random g 0) \<and> \<not> is_isolated a"
  using assms
  by (simp add: init_agent_def uniform_def random_def gamma_def normal_def infectious_timer_def
      Let_def split: prod.splits)

lemma init_agent_error:
  "init_agent cfg i (as, g) = Inl e \<longleftrightarrow> e = ValueError \<and> i < 1 \<and> infectious_std cfg < 0"
  by (auto simp: init_agent_def uniform_def random_def gamma_def normal_def
      Let_def split: prod.splits if_splits)

lemma init_fold_S:
  assumes "\<forall>i\<in>set js. \<not> i < 1"
  shows "\<exists>new g'. foldM (init_agent cfg) js (as, g) = Inr (as @ new, g')
    \<and> map agent_id new = js
    \<and> (\<forall>a\<in>set new. state a = S \<and> state_timer a = 0 \<and> \<not> is_isolated a)"
  using assms
proof (induction js arbitrary: as g)
  case Nil
  show ?case by simp
next
  case (Cons j js)
  from Cons.prems have "\<not> j < 1" by simp
  from init_agent_S [OF this, of cfg as g] obtain a g1 where
    a: "init_agent cfg j (as, g) = Inr (as @ [a], g1)" "agent_id a = j"
       "state a = S" "state_timer a = 0" "\<not> is_isolated a" by blast
  from Cons.prems have "\<forall>i\<in>set js. \<not> i < 1" by simp
  from Cons.IH [OF this, of "as @ [a]" g1] obtain new g' where
    n: "foldM (init_agent cfg) js (as @ [a], g1) = Inr ((as @ [a]) @ new, g')"
       "map agent_id new = js"
       "\<forall>b\<in>set new. state b = S \<and> state_timer b = 0 \<and> \<not> is_isolated b" by blast
  show ?case
    by (rule exI [of _ "a # new"], rule exI [of _ g']) (use a n in simp)
qed

lemma upto_from_0: "1 \<le> n \<Longrightarrow> [0..n - 1] = 0 # [1..n - 1]"
  by (simp add: upto_rec1)

lemma init_all:
  assumes "1 \<le> N cfg" "0 \<le> infectious_std cfg"
  shows "\<exists>a0 new g'. foldM (init_agent cfg) [0..N cfg - 1] ([], g) = Inr (a0 # new, g')
    \<and> agent_id a0 = 0 \<and> state a0 = I
    \<and> state_timer a0 = infectious_timer cfg (np_random g 0) \<and> \<not> is_isolated a0
    \<and> map agent_id new = [1..N cfg - 1]
    \<and> (\<forall>a\<in>set new. state a = S \<and> state_timer a = 0 \<and> \<not> is_isolated a)"
proof -
  from init_agent_I [of 0 cfg "[]" g] assms(2) obtain a0 g1 where
    a: "init_agent cfg 0 ([], g) = Inr ([a0], g1)" "agent_id a0 = 0" "state a0 = I"
       "state_timer a0 = infectious_timer cfg (np_random g 0)" "\<not> is_isolated a0"
    by auto
  have "\<forall>i\<in>set [1..N cfg - 1]. \<not> i < 1" by simp
  from init_fold_S [OF this, of cfg "[a0]" g1] obtain new g' where
    n: "foldM (init_agent cfg) [1..N cfg - 1] ([a0], g1) = Inr ([a0] @ new, g')"
       "map agent_id new = [1..N cfg - 1]"
       "\<forall>b\<in>set new. state b = S \<and> state_timer b = 0 \<and> \<not> is_isolated b" by blast
  show ?thesis
    by (rule exI [of _ a0], rule exI [of _ new], rule exI [of _ g'])
       (use a n in \<open>simp add: upto_from_0 [OF assms(1)]\<close>)
qed

lemma construct_unfold:
  "foldM (init_agent cfg) [0..N cfg - 1] ([], g) = Inr (as, g') \<Longrightarrow>
   construct cfg g = Inr (\<lparr>config = cfg, agents = as,
                            stats = (\<lambda>key. [count_states as key]), rt_history = [0]\<rparr>, g')"
  by (simp add: construct_def update_stats_def Let_def)

lemma construct_empty:
  "N cfg \<le> 0 \<Longrightarrow>
   construct cfg g = Inr (\<lparr>config = cfg, agents = [], stats = (\<lambda>key. [0]), rt_history = [0]\<rparr>, g)"
  by (simp add: construct_def update_stats_def count_states_def Let_def)

lemma construct_error:
  "construct cfg g = Inl e \<longleftrightarrow> e = ValueError \<and> 1 \<le> N cfg \<and> infectious_std cfg < 0"
proof (cases "1 \<le> N cfg")
  case False
  then show ?thesis by (simp add: construct_empty)
next
  case True
  show ?thesis
  proof (cases "0 \<le> infectious_std cfg")
    case std: True
    from init_all [OF True std, of g] obtain as g' where
      "foldM (init_agent cfg) [0..N cfg - 1] ([], g) = Inr (as, g')" by blast
    from construct_unfold [OF this] std show ?thesis by simp
  next
    case False
    then have "init_agent cfg 0 ([], g) = Inl ValueError"
      by (simp add: init_agent_error)
    then have "construct cfg g = Inl ValueError"
      by (simp add: construct_def upto_from_0 [OF True])
    with True False show ?thesis by auto
  qed
qed

lemma construct_result:
  assumes "construct cfg g = Inr (s, g')"
  shows "config s = cfg" and "rt_history s = [0]"
    and "\<And>key. stats s key = [count_states (agents s) key]"
    and "map agent_id (agents s) = [0..N cfg - 1]"
    and "\<forall>a\<in>set (agents s). \<not> is_isolated a"
    and "1 \<le> N cfg \<Longrightarrow> \<exists>a0 new. agents s = a0 # new \<and> state a0 = I
          \<and> state_timer a0 = infectious_timer cfg (np_random g 0)
          \<and> (\<forall>a\<in>set new. state a = S \<and> state_timer a = 0)"
proof -
  have "config s = cfg \<and> rt_history s = [0]
    \<and> (\<forall>key. stats s key = [count_states (agents s) key])
    \<and> map agent_id (agents s) = [0..N cfg - 1]
    \<and> (\<forall>a\<in>set (agents s). \<not> is_isolated a)
    \<and> (1 \<le> N cfg \<longrightarrow> (\<exists>a0 new. agents s = a0 # new \<and> state a0 = I
          \<and> state_timer a0 = infectious_timer cfg (np_random g 0)
          \<and> (\<forall>a\<in>set new. state a = S \<and> state_timer a = 0)))"
  proof (cases "1 \<le> N cfg")
    case False
    then have "N cfg \<le> 0" by simp
    from construct_empty [OF this, of g] assms False show ?thesis
      by (auto simp: count_states_def)
  next
    case True
    have std: "0 \<le> infectious_std cfg"
      using construct_error [of cfg g ValueError] assms True by (cases "0 \<le> infectious_std cfg") auto
    from init_all [OF True std, of g] obtain a0 new g1 where
      f: "foldM (init_agent cfg) [0..N cfg - 1] ([], g) = Inr (a0 # new, g1)"
      and p: "agent_id a0 = 0" "state a0 = I"
        "state_timer a0 = infectious_timer cfg (np_random g 0)" "\<not> is_isolated a0"
        "map agent_id new = [1..N cfg - 1]"
        "\<forall>a\<in>set new. state a = S \<and> state_timer a = 0 \<and> \<not> is_isolated a"
      by blast
    from construct_unfold [OF f] assms have
      s: "s = \<lparr>config = cfg, agents = a0 # new,
               stats = (\<lambda>key. [count_states (a0 # new) key]), rt_history = [0]\<rparr>" by simp
    show ?thesis
      unfolding s using p by (simp add: upto_from_0 [OF True])
  qed
  then show "config s = cfg" and "rt_history s = [0]"
    and "\<And>key. stats s key = [count_states (agents s) key]"
    and "map agent_id (agents s) = [0..N cfg - 1]"
    and "\<forall>a\<in>set (agents s). \<not> is_isolated a"
    and "1 \<le> N cfg \<Longrightarrow> \<exists>a0 new. agents s = a0 # new \<and> state a0 = I
          \<and> state_timer a0 = infectious_timer cfg (np_random g 0)
          \<and> (\<forall>a\<in>set new. state a = S \<and> state_timer a = 0)"
    by simp_all
qed

subsection \<open>Invariants of a run\<close>

lemma recorded_construct: "construct cfg g = Inr (s, g') \<Longrightarrow> recorded s 1"
  using count_states_sum [of "agents s"]
  by (simp add: recorded_def construct_result(2,3))

lemma recorded_step:
  assumes "step s g = Inr (s', g')" "recorded s n"
  shows "recorded s' (Suc n)"
proof -
  note r = step_result [OF assms(1)]
  from assms(2) have len: "length (rt_history s) = n" "\<And>key. length (stats s key) = n"
    and old: "\<And>t. t < n \<Longrightarrow>
      stats s S ! t + stats s E ! t + stats s I ! t + stats s R ! t + stats s D ! t
        = int (length (agents s))"
    by (simp_all add: recorded_def)
  have "stats s' S ! t + stats s' E ! t + stats s' I ! t + stats s' R ! t + stats s' D ! t
        = int (length (agents s'))" if "t < Suc n" for t
  proof (cases "t < n")
    case True
    with old [OF True] len r(2) show ?thesis by (simp add: r(4) nth_append)
  next
    case False
    with that have "t = n" by simp
    with len count_states_sum [of "agents s'"] show ?thesis by (simp add: r(4) nth_append)
  qed
  with len r(5) show ?thesis by (simp add: recorded_def r(4))
qed

lemma steps_invariant:
  assumes "steps n s g = Inr (s', g')"
  shows "config s' = config s"
    and "map agent_id (agents s') = map agent_id (agents s)"
    and "recorded s m \<Longrightarrow> recorded s' (m + n)"
    and "(\<forall>a\<in>set (agents s). is_isolated a \<longrightarrow> state a = I) \<Longrightarrow>
         (\<forall>a\<in>set (agents s'). is_isolated a \<longrightarrow> state a = I)"
proof -
  have "config s' = config s \<and> map agent_id (agents s') = map agent_id (agents s)
    \<and> (recorded s m \<longrightarrow> recorded s' (m + n))
    \<and> ((\<forall>a\<in>set (agents s). is_isolated a \<longrightarrow> state a = I) \<longrightarrow>
         (\<forall>a\<in>set (agents s'). is_isolated a \<longrightarrow> state a = I))"
    using assms
  proof (induction n arbitrary: s g m)
    case 0
    then show ?case by simp
  next
    case (Suc n)
    from Suc.prems obtain s1 g1 where
      st: "step s g = Inr (s1, g1)" and rest: "steps n s1 g1 = Inr (s', g')"
      by (auto split: sum.splits)
    note r = step_result [OF st]
    have ids: "map agent_id (agents s1) = map agent_id (agents s)"
      by (rule nth_equalityI) (simp_all add: r(2) agent_step_id [OF r(3)])
    have iso: "\<forall>a\<in>set (agents s1). is_isolated a \<longrightarrow> state a = I"
      if inv: "\<forall>a\<in>set (agents s). is_isolated a \<longrightarrow> state a = I"
    proof
      fix a assume "a \<in> set (agents s1)"
      then obtain k where k: "k < length (agents s)" "a = agents s1 ! k"
        by (auto simp: in_set_conv_nth r(2))
      with inv have "is_isolated (agents s ! k) \<longrightarrow> state (agents s ! k) = I" by simp
      from agent_step_isolated [OF r(3) [OF k(1)] this] k show "is_isolated a \<longrightarrow> state a = I"
        by simp
    qed
    from Suc.IH [OF rest, of "Suc m"] r(1) ids recorded_step [OF st, of m] iso
    show ?case by simp
  qed
  then show "config s' = config s"
    and "map agent_id (agents s') = map agent_id (agents s)"
    and "recorded s m \<Longrightarrow> recorded s' (m + n)"
    and "(\<forall>a\<in>set (agents s). is_isolated a \<longrightarrow> state a = I) \<Longrightarrow>
         (\<forall>a\<in>set (agents s'). is_isolated a \<longrightarrow> state a = I)"
    by simp_all
qed

lemma steps_total:
  assumes "0 \<le> incubation_std (config s)" "0 \<le> infectious_std (config s)"
    and "dt (config s) \<noteq> 0"
  shows "\<exists>s' g'. steps n s g = Inr (s', g')"
  using assms
proof (induction n arbitrary: s g)
  case 0
  show ?case by simp
next
  case (Suc n)
  from step_total [OF Suc.prems] obtain s1 g1 where st: "step s g = Inr (s1, g1)" by blast
  from step_result(1) [OF st] Suc.prems have
    "0 \<le> incubation_std (config s1)" "0 \<le> infectious_std (config s1)" "dt (config s1) \<noteq> 0"
    by simp_all
  from Suc.IH [OF this, of g1] st show ?case by simp
qed

subsection \<open>Reflection at the boundary\<close>

lemma move_unfold:
  assumes "state a \<noteq> D" "\<not> is_isolated a"
  shows "fst (move gs h ha rf a g)
    = bounce_y gs (bounce_x gs (update_position h (damp
        (random_walk rf h (- 1 + 2 * py_random g 0) (- 1 + 2 * py_random g 1)
           (attract ha h a)))))"
  using assms by (simp add: move_def uniform_def random_def rest_def Let_def)

lemma bounce_y_x [simp]: "x (bounce_y gs a) = x a" "vx (bounce_y gs a) = vx a"
  by (simp_all add: bounce_y_def)

lemma bounce_x_y [simp]: "y (bounce_x gs a) = y a" "vy (bounce_x gs a) = vy a"
  by (simp_all add: bounce_x_def)

lemma bounce_x_cases:
  "x (bounce_x gs a) = (if x a < 0 then - x a else if gs < x a then 2 * gs - x a else x a)"
  "vx (bounce_x gs a) = (if x a < 0 \<or> gs < x a then - vx a else vx a)"
  by (simp_all add: bounce_x_def)

lemma bounce_y_cases:
  "y (bounce_y gs a) = (if y a < 0 then - y a else if gs < y a then 2 * gs - y a else y a)"
  "vy (bounce_y gs a) = (if y a < 0 \<or> gs < y a then - vy a else vy a)"
  by (simp_all add: bounce_y_def)

lemma before_bounce:
  "vx (update_position h (damp (random_walk rf h u1 u2 (attract ha h a))))
     = (vx a + (home_x a - x a) * ha * h + u1 * rf * h) * (95 / 100)"
  "x (update_position h (damp (random_walk rf h u1 u2 (attract ha h a))))
     = x a + (vx a + (home_x a - x a) * ha * h + u1 * rf * h) * (95 / 100) * h"
  "vy (update_position h (damp (random_walk rf h u1 u2 (attract ha h a))))
     = (vy a + (home_y a - y a) * ha * h + u2 * rf * h) * (95 / 100)"
  "y (update_position h (damp (random_walk rf h u1 u2 (attract ha h a))))
     = y a + (vy a + (home_y a - y a) * ha * h + u2 * rf * h) * (95 / 100) * h"
  by (simp_all add: update_position_def damp_def random_walk_def attract_def Let_def)

subsection \<open>The isolation flag\<close>

lemma agent_step_isolation:
  assumes "agent_step cfg a a'"
  shows "\<not> is_isolated a \<Longrightarrow> is_isolated a' \<Longrightarrow> state a = E \<and> state a' = I"
    and "state a = I \<Longrightarrow> state a' \<noteq> I \<Longrightarrow> \<not> is_isolated a'"
proof -
  from assms obtain a0 a1 where
    a0: "state a0 = state a" "state_timer a0 = state_timer a" "is_isolated a0 = is_isolated a"
    and d: "decided cfg a0 a1" and c: "commit (dt cfg) a1 = Inr a'"
    by (rule agent_step_cases)
  note cf = commit_fields(1,3) [OF c]
  show "state a = E \<and> state a' = I" if "\<not> is_isolated a" "is_isolated a'"
    using that a0 d cf by (cases "state a") (auto simp: decided_def split: if_splits)
  show "\<not> is_isolated a'" if "state a = I" "state a' \<noteq> I"
    using that a0 d cf by (auto simp: decided_def split: if_splits)
qed

lemma decide_isolates:
  assumes "decide cfg grid c i (as, g, ni, ci) = Inr (as', g', ni', ci')"
    and "i < length as" and "\<not> is_isolated (as ! i)"
  shows "is_isolated (as' ! i) \<longleftrightarrow>
     state (as ! i) = E \<and> state_timer (as ! i) - dt cfg \<le> 0
     \<and> py_random g 0 < detection_prob cfg \<and> py_random g 1 < isolation_compliance cfg"
proof (cases "state (as ! i) = E")
  case False
  from decide_frame(1) [OF assms(2,1)] have "decided cfg (as ! i) (as' ! i)"
    using assms(2) by (rule frame_at)
  with False assms(3) show ?thesis
    by (cases "state (as ! i)") (auto simp: decided_def split: if_splits)
next
  case True
  show ?thesis
  proof (cases "state_timer (as ! i) - dt cfg \<le> 0")
    case stay: False
    from decide_E_stay [OF assms(2) True stay, of grid c g ni ci] assms
    show ?thesis using stay by auto
  next
    case leave: True
    have std: "0 \<le> infectious_std cfg"
      using decide_E_error [OF assms(2) True leave, of grid c g ni ci] assms(1)
      by (cases "0 \<le> infectious_std cfg") simp_all
    from decide_E_leave [OF assms(2) True leave std, of grid c g ni ci] assms
    show ?thesis using True leave by auto
  qed
qed

lemma step_agent_state:
  assumes "step s g = Inr (s', g')" "k < length (agents s)"
  shows "case state (agents s ! k) of
           S \<Rightarrow> state (agents s' ! k) = S \<or> state (agents s' ! k) = R
                 \<or> state (agents s' ! k) = E
         | E \<Rightarrow> if state_timer (agents s ! k) - dt (config s) \<le> 0
                then state (agents s' ! k) = I
                   \<and> (\<exists>z. state_timer (agents s' ! k) = infectious_timer (config s) z)
                else state (agents s' ! k) = E
                   \<and> state_timer (agents s' ! k) = state_timer (agents s ! k) - dt (config s)
         | I \<Rightarrow> if state_timer (agents s ! k) - dt (config s) \<le> 0
                then (state (agents s' ! k) = R \<or> state (agents s' ! k) = D)
                   \<and> \<not> is_isolated (agents s' ! k)
                else state (agents s' ! k) = I
                   \<and> state_timer (agents s' ! k) = state_timer (agents s ! k) - dt (config s)
                   \<and> is_isolated (agents s' ! k) = is_isolated (agents s ! k)
         | R \<Rightarrow> state (agents s' ! k) = R
         | D \<Rightarrow> state (agents s' ! k) = D"
  by (rule agent_step_state [OF step_result(3) [OF assms]])

subsection \<open>Evaluations of concrete inputs\<close>

lemma small_population:
  "case construct (test_config\<lparr>N := 2\<rparr>) (const_rng (1 / 4) 1) of
     Inl e \<Rightarrow> False
   | Inr (s0, g0) \<Rightarrow> map state (agents s0) = [I, S]"
  by code_simp

lemma contact_counters:
  "case transitions contact_sim (const_rng (1 / 2) 0) of
     Inl e \<Rightarrow> False
   | Inr (as3, g2, new_infections, current_infectious) \<Rightarrow>
       new_infections = 1 \<and> current_infectious = 1"
  by code_simp

lemma isolation_run:
  "case step isolation_sim (const_rng (1 / 2) 0) of
     Inl e \<Rightarrow> False
   | Inr (s2, g2) \<Rightarrow> is_isolated (agents s2 ! 0)"
  by code_simp

section \<open>The claims\<close>

subsection \<open>C1: population conservation\<close>

text \<open>
  C1. After construction and after every further \<^verbatim>\<open>step\<close> the agents are the agents
  created by \<^verbatim>\<open>init_agents\<close> (same ids \<open>0, \<dots>, N - 1\<close>, in the same order), every history
  has one entry per step boundary, and at every recorded boundary the five per-state
  counts sum to the number of agents, which is \<open>N\<close> for every population size that is
  not negative. Every agent is counted in exactly one of the five series, since its
  state is one of the five values.
\<close>

theorem population_conservation:
  assumes "construct cfg g = Inr (s0, g0)" and "steps n s0 g0 = Inr (s, g')"
  shows "map agent_id (agents s) = [0..N cfg - 1]
    \<and> int (length (agents s)) = max 0 (N cfg)
    \<and> length (rt_history s) = Suc n \<and> (\<forall>key. length (stats s key) = Suc n)
    \<and> (\<forall>t\<le>n. stats s S ! t + stats s E ! t + stats s I ! t + stats s R ! t + stats s D ! t
                = int (length (agents s)))
    \<and> (0 \<le> N cfg \<longrightarrow>
         (\<forall>t\<le>n. stats s S ! t + stats s E ! t + stats s I ! t + stats s R ! t + stats s D ! t
                = N cfg))"
proof -
  note c = construct_result [OF assms(1)]
  note i = steps_invariant [OF assms(2)]
  from i(2) c(4) have ids: "map agent_id (agents s) = [0..N cfg - 1]" by simp
  then have "length (agents s) = length [0..N cfg - 1]" by (metis length_map)
  then have len: "int (length (agents s)) = max 0 (N cfg)" by simp
  from i(3) [OF recorded_construct [OF assms(1)]] have "recorded s (Suc n)" by simp
  with len ids show ?thesis by (simp add: recorded_def less_Suc_eq_le)
qed

theorem population_conservation_witness:
  "\<exists>s0 g0 s g'. 0 \<le> N (test_config\<lparr>N := 2\<rparr>)
     \<and> construct (test_config\<lparr>N := 2\<rparr>) (const_rng (1 / 4) 1) = Inr (s0, g0)
     \<and> steps 3 s0 g0 = Inr (s, g')
     \<and> int (length (agents s)) = 2 \<and> map agent_id (agents s) = [0, 1]
     \<and> length (rt_history s) = 4 \<and> (\<forall>key. length (stats s key) = 4)
     \<and> (\<forall>t\<le>3. stats s S ! t + stats s E ! t + stats s I ! t + stats s R ! t + stats s D ! t = 2)"
proof -
  let ?cfg = "test_config\<lparr>N := 2\<rparr>"
  from small_population obtain s0 g0 where
    c: "construct ?cfg (const_rng (1 / 4) 1) = Inr (s0, g0)"
    by (auto split: sum.splits)
  from construct_result(1) [OF c] have cfg: "config s0 = ?cfg" .
  have "\<exists>s g'. steps 3 s0 g0 = Inr (s, g')"
    by (rule steps_total) (simp_all add: cfg test_config_def)
  then obtain s g' where st: "steps 3 s0 g0 = Inr (s, g')" by blast
  have n: "0 \<le> N ?cfg" "N ?cfg = 2" by (simp_all add: test_config_def)
  have u: "[0..N ?cfg - 1] = [0, 1]" unfolding n by (simp add: upto_rec1)
  from population_conservation [OF c st] c st n u show ?thesis
    by (intro exI [of _ s0] exI [of _ g0] exI [of _ s] exI [of _ g']) simp
qed

subsection \<open>C2: two-phase independence\<close>

text \<open>
  C2 does not hold of the code. Part 3 of \<^verbatim>\<open>step\<close> stages the state and the timer in
  \<^verbatim>\<open>next_state\<close> and \<^verbatim>\<open>next_timer\<close>, but writes \<^verbatim>\<open>is_isolated\<close> in place: the iteration
  for an isolated infectious agent whose timer has run out clears the flag while the
  agent's committed state is still \<open>I\<close>, and the transmission check of every agent
  processed later in the same step reads the cleared flag. With the same draws for every
  agent, the susceptible neighbour is exposed when the infectious agent is processed
  first and stays susceptible when it is processed last.
\<close>

theorem decision_depends_on_order:
  "(case decide (config isolated_first) (build_grid 2 (agents isolated_first)) 2 0
           (agents isolated_first, const_rng (1 / 2) 0, 0, 0) of
      Inl e \<Rightarrow> False
    | Inr (as', g', new_infections, current_infectious_agents) \<Rightarrow>
        is_isolated (agents isolated_first ! 0)
        \<and> state (as' ! 0) = I \<and> \<not> is_isolated (as' ! 0))
   \<and> (case step isolated_first (const_rng (1 / 2) 0) of
        Inl e \<Rightarrow> False
      | Inr (s', g') \<Rightarrow> map agent_id (agents s') = [0, 1] \<and> map state (agents s') = [R, E])
   \<and> (case step isolated_last (const_rng (1 / 2) 0) of
        Inl e \<Rightarrow> False
      | Inr (s', g') \<Rightarrow> map agent_id (agents s') = [1, 0] \<and> map state (agents s') = [S, R])"
  by code_simp

subsection \<open>C3: first success ends the neighbour scan\<close>

text \<open>
  C3 does not hold of the code. The \<^verbatim>\<open>break\<close> after a successful roll ends the loop over
  the neighbours of one cell only, and the test \<^verbatim>\<open>agent.next_state == "E"\<close> that ends the
  scan stands after the whole \<^verbatim>\<open>dy\<close> loop: the remaining cells of the same \<^verbatim>\<open>dx\<close> column
  are still scanned. Here the single susceptible agent is exposed by the neighbour in
  cell \<open>(1, 0)\<close> and again by the one in cell \<open>(1, 2)\<close>: the incubation timer is drawn
  twice (the second draw, 6, replaces the first, 5), the counter of new infections is 2,
  and the recorded Rt is 7 instead of 3.5.
\<close>

theorem exposure_counted_twice:
  "length (filter (\<lambda>a. state a = S) (agents exposure_sim)) = 1
   \<and> (case transitions exposure_sim counting_rng of
        Inl e \<Rightarrow> False
      | Inr (as3, g2, new_infections, current_infectious_agents) \<Rightarrow>
          new_infections = 2 \<and> current_infectious_agents = 2
          \<and> map state as3 = [E, I, I] \<and> state_timer (as3 ! 0) = 6 \<and> np_random g2 0 = 2)
   \<and> (case step exposure_sim counting_rng of
        Inl e \<Rightarrow> False
      | Inr (s', g') \<Rightarrow> rt_history s' = [7])"
  by code_simp

subsection \<open>C4: validation at construction\<close>

text \<open>
  C4, as stated, fails: \<^verbatim>\<open>__init__\<close> checks nothing. The configuration
  \<open>invalid_config\<close> is constructed (patient zero and one susceptible agent), and it is
  the first \<^verbatim>\<open>step\<close> that fails, with the \<^verbatim>\<open>ValueError\<close> of
  \<^verbatim>\<open>np.random.normal\<close> at the first transmission.
\<close>

theorem construction_validation_counterexample:
  "\<not> valid_config invalid_config
   \<and> (case construct invalid_config (const_rng (1 / 10) 1) of
        Inl e \<Rightarrow> False
      | Inr (s, g') \<Rightarrow> map state (agents s) = [I, S]
          \<and> (case step s g' of Inl e \<Rightarrow> e = ValueError | Inr r \<Rightarrow> False))"
  by code_simp

text \<open>
  C4, amended. Construction fails in exactly one case, with numpy's \<^verbatim>\<open>ValueError\<close>:
  when there is a patient zero to draw a timer for (\<open>N \<ge> 1\<close>) and
  \<^verbatim>\<open>infectious_std\<close> is negative. Every other configuration is constructed, with an
  empty population when \<open>N \<le> 0\<close>; in particular every configuration that satisfies the
  conditions of the specification is constructed.
\<close>

theorem construction_never_validates:
  "(construct cfg g = Inl e \<longleftrightarrow> e = ValueError \<and> 1 \<le> N cfg \<and> infectious_std cfg < 0)
   \<and> (N cfg \<le> 0 \<longrightarrow> (\<exists>s. construct cfg g = Inr (s, g) \<and> agents s = []))
   \<and> (valid_config cfg \<longrightarrow> (\<exists>s g'. construct cfg g = Inr (s, g')))"
proof (intro conjI impI)
  show "construct cfg g = Inl e \<longleftrightarrow> e = ValueError \<and> 1 \<le> N cfg \<and> infectious_std cfg < 0"
    by (rule construct_error)
  show "\<exists>s. construct cfg g = Inr (s, g) \<and> agents s = []" if "N cfg \<le> 0"
    using construct_empty [OF that, of g] by simp
  show "\<exists>s g'. construct cfg g = Inr (s, g')" if "valid_config cfg"
  proof (cases "construct cfg g")
    case (Inl e)
    with construct_error [of cfg g e] that show ?thesis by (simp add: valid_config_def)
  next
    case (Inr r)
    then show ?thesis by (cases r) auto
  qed
qed

theorem construction_never_validates_witness:
  "construct (default_config\<lparr>infectious_std := - 1\<rparr>) (const_rng 0 0) = Inl ValueError
   \<and> N (default_config\<lparr>N := 0\<rparr>) \<le> 0
   \<and> (\<exists>s. construct (default_config\<lparr>N := 0\<rparr>) (const_rng 0 0) = Inr (s, const_rng 0 0)
          \<and> agents s = [])
   \<and> valid_config default_config
   \<and> (\<exists>s g'. construct default_config (const_rng 0 0) = Inr (s, g'))"
  using construction_never_validates
          [of "default_config\<lparr>infectious_std := - 1\<rparr>" "const_rng 0 0" ValueError]
        construction_never_validates [of "default_config\<lparr>N := 0\<rparr>" "const_rng 0 0" ValueError]
        construction_never_validates [of default_config "const_rng 0 0" ValueError]
  by (simp add: default_config_def valid_config_def)

subsection \<open>C5: the state D is absorbing\<close>

text \<open>
  C5. An agent that is in state \<open>D\<close> at a step boundary keeps, through any number of
  further calls of \<^verbatim>\<open>step\<close> that return, its state, its \<^verbatim>\<open>state_timer\<close>, its position
  and its isolation flag (and stays at the same place of the population, with its id).
\<close>

theorem deceased_is_absorbing:
  assumes "steps n s g = Inr (s', g')" and "k < length (agents s)"
    and "state (agents s ! k) = D"
  shows "k < length (agents s') \<and> agent_id (agents s' ! k) = agent_id (agents s ! k)
    \<and> state (agents s' ! k) = D
    \<and> state_timer (agents s' ! k) = state_timer (agents s ! k)
    \<and> x (agents s' ! k) = x (agents s ! k) \<and> y (agents s' ! k) = y (agents s ! k)
    \<and> is_isolated (agents s' ! k) = is_isolated (agents s ! k)"
  using assms
proof (induction n arbitrary: s g)
  case 0
  then show ?case by simp
next
  case (Suc n)
  from Suc.prems(1) obtain s1 g1 where
    st: "step s g = Inr (s1, g1)" and rest: "steps n s1 g1 = Inr (s', g')"
    by (auto split: sum.splits)
  note r = step_result [OF st]
  note a = r(3) [OF Suc.prems(2)]
  note d = agent_step_D [OF a Suc.prems(3)]
  from Suc.prems(2) r(2) have k: "k < length (agents s1)" by simp
  from Suc.IH [OF rest k d(1)] d agent_step_id [OF a] show ?case by simp
qed

theorem deceased_is_absorbing_witness:
  "\<exists>s' g'. steps 5 deceased_sim (const_rng (1 / 2) 0) = Inr (s', g')
     \<and> 0 < length (agents deceased_sim) \<and> state (agents deceased_sim ! 0) = D
     \<and> state (agents s' ! 0) = D \<and> state_timer (agents s' ! 0) = 4
     \<and> x (agents s' ! 0) = 3 \<and> y (agents s' ! 0) = 3 \<and> is_isolated (agents s' ! 0)"
proof -
  have "\<exists>s' g'. steps 5 deceased_sim (const_rng (1 / 2) 0) = Inr (s', g')"
    by (rule steps_total) (simp_all add: deceased_sim_def new_sim_def default_config_def)
  then obtain s' g' where st: "steps 5 deceased_sim (const_rng (1 / 2) 0) = Inr (s', g')"
    by blast
  have h: "0 < length (agents deceased_sim)" "state (agents deceased_sim ! 0) = D"
    by (simp_all add: deceased_sim_def new_sim_def new_agent_def)
  from deceased_is_absorbing [OF st h] st h show ?thesis
    by (intro exI [of _ s'] exI [of _ g'])
       (simp add: deceased_sim_def new_sim_def new_agent_def)
qed

subsection \<open>C6: the initial condition\<close>

text \<open>
  C6. For a population size of at least one (and a scale that numpy accepts),
  construction returns a simulation of \<open>N\<close> agents in which the first agent, and no
  other, is in state \<open>I\<close>, with the timer \<^verbatim>\<open>max(0, normal(infectious_mean, infectious_std))\<close>
  drawn from the first numpy variate; every other agent is in state \<open>S\<close> with timer
  zero; nobody is isolated; and each per-state history and the Rt history hold exactly
  the step-0 snapshot (\<open>N - 1\<close> susceptible, one infectious, Rt zero).
\<close>

theorem initial_condition:
  assumes "1 \<le> N cfg" and "0 \<le> infectious_std cfg"
  shows "\<exists>s g'. construct cfg g = Inr (s, g') \<and> config s = cfg
    \<and> int (length (agents s)) = N cfg
    \<and> state (agents s ! 0) = I
    \<and> state_timer (agents s ! 0)
        = max 0 (infectious_mean cfg + infectious_std cfg * np_random g 0)
    \<and> length (filter (\<lambda>a. state a = I) (agents s)) = 1
    \<and> (\<forall>k. 0 < k \<and> k < length (agents s) \<longrightarrow>
          state (agents s ! k) = S \<and> state_timer (agents s ! k) = 0)
    \<and> (\<forall>a\<in>set (agents s). \<not> is_isolated a)
    \<and> stats s S = [N cfg - 1] \<and> stats s E = [0] \<and> stats s I = [1]
    \<and> stats s R = [0] \<and> stats s D = [0]
    \<and> rt_history s = [0]"
proof -
  from init_all [OF assms, of g] obtain a0 new g' where
    f: "foldM (init_agent cfg) [0..N cfg - 1] ([], g) = Inr (a0 # new, g')"
    and p: "state a0 = I" "state_timer a0 = infectious_timer cfg (np_random g 0)"
      "\<not> is_isolated a0" "map agent_id new = [1..N cfg - 1]"
      "\<forall>a\<in>set new. state a = S \<and> state_timer a = 0 \<and> \<not> is_isolated a"
    by blast
  let ?s = "\<lparr>config = cfg, agents = a0 # new,
             stats = (\<lambda>key. [count_states (a0 # new) key]), rt_history = [0]\<rparr>"
  note c = construct_unfold [OF f]
  from p(4) have "length new = length [1..N cfg - 1]" by (metis length_map)
  with assms(1) have len: "int (length new) = N cfg - 1" by simp
  have fS: "filter (\<lambda>a. state a = S) new = new" using p(5) by (simp add: filter_id_conv)
  have fO: "filter (\<lambda>a. state a = key) new = []" if "key \<noteq> S" for key
    using p(5) that by (auto simp: filter_empty_conv)
  have nth: "state (new ! j) = S \<and> state_timer (new ! j) = 0" if "j < length new" for j
    using p(5) that by (simp add: nth_mem)
  have "\<forall>k. 0 < k \<and> k < length (a0 # new) \<longrightarrow>
      state ((a0 # new) ! k) = S \<and> state_timer ((a0 # new) ! k) = 0"
  proof (intro allI impI)
    fix k assume k: "0 < k \<and> k < length (a0 # new)"
    then obtain j where "k = Suc j" "j < length new" by (cases k) auto
    with nth [of j] show "state ((a0 # new) ! k) = S \<and> state_timer ((a0 # new) ! k) = 0"
      by simp
  qed
  with c p len fS fO show ?thesis
    by (intro exI [of _ ?s] exI [of _ g'])
       (simp add: count_states_filter infectious_timer_def)
qed

theorem initial_condition_witness:
  "\<exists>s g'. 1 \<le> N test_config \<and> 0 \<le> infectious_std test_config
     \<and> construct test_config (const_rng (1 / 2) 1) = Inr (s, g')
     \<and> length (agents s) = 100 \<and> state (agents s ! 0) = I \<and> state_timer (agents s ! 0) = 7
     \<and> length (filter (\<lambda>a. state a = I) (agents s)) = 1
     \<and> state (agents s ! 99) = S \<and> state_timer (agents s ! 99) = 0
     \<and> stats s S = [99] \<and> stats s I = [1] \<and> rt_history s = [0]"
proof -
  have h: "1 \<le> N test_config" "0 \<le> infectious_std test_config"
    by (simp_all add: test_config_def)
  from initial_condition [OF h, of "const_rng (1 / 2) 1"] obtain s g' where
    c: "construct test_config (const_rng (1 / 2) 1) = Inr (s, g')"
      "int (length (agents s)) = N test_config"
      "state (agents s ! 0) = I"
      "state_timer (agents s ! 0)
        = max 0 (infectious_mean test_config
                 + infectious_std test_config * np_random (const_rng (1 / 2) 1) 0)"
      "length (filter (\<lambda>a. state a = I) (agents s)) = 1"
      "\<forall>k. 0 < k \<and> k < length (agents s) \<longrightarrow>
          state (agents s ! k) = S \<and> state_timer (agents s ! k) = 0"
      "stats s S = [N test_config - 1]" "stats s I = [1]" "rt_history s = [0]"
    by blast
  from c(2) have len: "length (agents s) = 100" by (simp add: test_config_def)
  with c(6) have "state (agents s ! 99) = S \<and> state_timer (agents s ! 99) = 0" by simp
  with c h len show ?thesis
    by (intro exI [of _ s] exI [of _ g']) (simp add: test_config_def)
qed

subsection \<open>C7: the deterministic timer path\<close>

text \<open>
  C7. With both standard deviations zero and \<^verbatim>\<open>dt = 1\<close>, two calls of \<^verbatim>\<open>step\<close> return,
  and an agent in state \<open>E\<close> with timer 2 is in \<open>E\<close> with timer 1 after the first and
  in \<open>I\<close> with timer \<^verbatim>\<open>max(0, infectious_mean)\<close>, that is \<^verbatim>\<open>infectious_mean\<close> when
  this is not negative, after the second. In any \<^verbatim>\<open>step\<close> an agent makes at most one
  transition, whatever timer it draws: a susceptible agent ends in \<open>S\<close>, \<open>R\<close> or \<open>E\<close>,
  an exposed one in \<open>E\<close> or \<open>I\<close>. A timer that is zero (or at most \<^verbatim>\<open>dt\<close>) at a step
  boundary takes effect in the next \<^verbatim>\<open>step\<close>: the exposed agent becomes infectious,
  the infectious one recovers or dies.
\<close>

theorem deterministic_timer_path:
  "(incubation_std (config s) = 0 \<and> infectious_std (config s) = 0 \<and> dt (config s) = 1
      \<and> k < length (agents s) \<and> state (agents s ! k) = E \<and> state_timer (agents s ! k) = 2
    \<longrightarrow>
      (\<exists>s1 g1 s2 g2. step s g = Inr (s1, g1) \<and> step s1 g1 = Inr (s2, g2)
         \<and> state (agents s1 ! k) = E \<and> state_timer (agents s1 ! k) = 1
         \<and> state (agents s2 ! k) = I
         \<and> state_timer (agents s2 ! k) = max 0 (infectious_mean (config s))
         \<and> (0 \<le> infectious_mean (config s) \<longrightarrow>
               state_timer (agents s2 ! k) = infectious_mean (config s))))
   \<and> (step t h = Inr (t', h') \<and> j < length (agents t) \<longrightarrow>
        (state (agents t ! j) = S \<longrightarrow> state (agents t' ! j) \<in> {S, R, E})
      \<and> (state (agents t ! j) = E \<longrightarrow> state (agents t' ! j) \<in> {E, I})
      \<and> (state (agents t ! j) = E \<and> state_timer (agents t ! j) \<le> dt (config t) \<longrightarrow>
            state (agents t' ! j) = I)
      \<and> (state (agents t ! j) = I \<and> state_timer (agents t ! j) \<le> dt (config t) \<longrightarrow>
            state (agents t' ! j) \<in> {R, D}))"
proof (intro conjI impI)
  assume a: "incubation_std (config s) = 0 \<and> infectious_std (config s) = 0
      \<and> dt (config s) = 1
      \<and> k < length (agents s) \<and> state (agents s ! k) = E \<and> state_timer (agents s ! k) = 2"
  then have c: "0 \<le> incubation_std (config s)" "0 \<le> infectious_std (config s)"
    "dt (config s) \<noteq> 0" by simp_all
  from step_total [OF c] obtain s1 g1 where s1: "step s g = Inr (s1, g1)" by blast
  note r1 = step_result(1,2) [OF s1]
  from a have k: "k < length (agents s)" by simp
  from step_agent_state [OF s1 k] a have
    e1: "state (agents s1 ! k) = E" "state_timer (agents s1 ! k) = 1" by simp_all
  from r1 c have c1: "0 \<le> incubation_std (config s1)" "0 \<le> infectious_std (config s1)"
    "dt (config s1) \<noteq> 0" by simp_all
  from step_total [OF c1] obtain s2 g2 where s2: "step s1 g1 = Inr (s2, g2)" by blast
  from k r1 have k1: "k < length (agents s1)" by simp
  from step_agent_state [OF s2 k1] e1 a r1 have
    e2: "state (agents s2 ! k) = I"
      "state_timer (agents s2 ! k) = max 0 (infectious_mean (config s))"
    by (auto simp: infectious_timer_def)
  with s1 s2 e1 show "\<exists>s1 g1 s2 g2. step s g = Inr (s1, g1) \<and> step s1 g1 = Inr (s2, g2)
         \<and> state (agents s1 ! k) = E \<and> state_timer (agents s1 ! k) = 1
         \<and> state (agents s2 ! k) = I
         \<and> state_timer (agents s2 ! k) = max 0 (infectious_mean (config s))
         \<and> (0 \<le> infectious_mean (config s) \<longrightarrow>
               state_timer (agents s2 ! k) = infectious_mean (config s))"
    by (intro exI [of _ s1] exI [of _ g1] exI [of _ s2] exI [of _ g2]) simp
next
  assume a: "step t h = Inr (t', h') \<and> j < length (agents t)"
  then have st: "step t h = Inr (t', h')" and j: "j < length (agents t)" by simp_all
  note p = step_agent_state [OF st j]
  show "state (agents t' ! j) \<in> {S, R, E}" if "state (agents t ! j) = S"
    using p that by auto
  show "state (agents t' ! j) \<in> {E, I}" if "state (agents t ! j) = E"
    using p that by (auto split: if_splits)
  show "state (agents t' ! j) = I"
    if "state (agents t ! j) = E \<and> state_timer (agents t ! j) \<le> dt (config t)"
    using p that by (auto split: if_splits)
  show "state (agents t' ! j) \<in> {R, D}"
    if "state (agents t ! j) = I \<and> state_timer (agents t ! j) \<le> dt (config t)"
    using p that by (auto split: if_splits)
qed

theorem deterministic_timer_path_witness:
  "incubation_std (config timer_sim) = 0 \<and> infectious_std (config timer_sim) = 0
   \<and> dt (config timer_sim) = 1 \<and> 0 < length (agents timer_sim)
   \<and> state (agents timer_sim ! 0) = E \<and> state_timer (agents timer_sim ! 0) = 2
   \<and> (\<exists>s1 g1 s2 g2. step timer_sim (const_rng (1 / 2) 0) = Inr (s1, g1)
         \<and> step s1 g1 = Inr (s2, g2)
         \<and> state (agents s1 ! 0) = E \<and> state_timer (agents s1 ! 0) = 1
         \<and> state (agents s2 ! 0) = I \<and> state_timer (agents s2 ! 0) = 7)"
proof -
  have h: "incubation_std (config timer_sim) = 0 \<and> infectious_std (config timer_sim) = 0
      \<and> dt (config timer_sim) = 1 \<and> 0 < length (agents timer_sim)
      \<and> state (agents timer_sim ! 0) = E \<and> state_timer (agents timer_sim ! 0) = 2"
    by (simp add: timer_sim_def new_sim_def test_config_def new_agent_def)
  have m: "infectious_mean (config timer_sim) = 7"
    by (simp add: timer_sim_def new_sim_def test_config_def)
  from deterministic_timer_path [where s = timer_sim and k = 0 and g = "const_rng (1 / 2) 0"] h
  obtain s1 g1 s2 g2 where
    "step timer_sim (const_rng (1 / 2) 0) = Inr (s1, g1)" "step s1 g1 = Inr (s2, g2)"
    "state (agents s1 ! 0) = E" "state_timer (agents s1 ! 0) = 1"
    "state (agents s2 ! 0) = I"
    "state_timer (agents s2 ! 0) = max 0 (infectious_mean (config timer_sim))"
    by blast
  with h m show ?thesis by auto
qed

subsection \<open>C8: the reproduction-number estimate\<close>

text \<open>
  C8. A \<^verbatim>\<open>step\<close> that returns appends exactly one value to the Rt history. With the two
  step-scoped counters of part 3, of which the second is the number of agents that were
  in state \<open>I\<close> when the step began, that value is
  \<^verbatim>\<open>(new_infections / dt) / current_infectious_agents * infectious_mean\<close> when the second
  counter is positive, and \<open>0\<close> when it is zero. The snapshot taken by the constructor
  records \<open>0\<close>.
\<close>

theorem rt_estimate:
  "(step s g = Inr (s', g') \<longrightarrow>
      (\<exists>as3 new_infections current_infectious.
          transitions s g = Inr (as3, g', new_infections, current_infectious)
        \<and> current_infectious = int (length (filter (\<lambda>a. state a = I) (agents s)))
        \<and> (0 < current_infectious \<longrightarrow> dt (config s) \<noteq> 0)
        \<and> rt_history s' = rt_history s @
             [if 0 < current_infectious
              then real_of_int new_infections / dt (config s)
                     / real_of_int current_infectious * infectious_mean (config s)
              else 0]))
   \<and> (construct cfg g0 = Inr (s0, g1) \<longrightarrow> rt_history s0 = [0])"
proof (intro conjI impI)
  assume st: "step s g = Inr (s', g')"
  then obtain as3 ni ci where
    t: "transitions s g = Inr (as3, g', ni, ci)"
    and u: "update_stats (s\<lparr>agents := as3\<rparr>) ni ci = Inr s'"
    by (auto simp: step_def split: sum.splits)
  from update_stats_error [of "s\<lparr>agents := as3\<rparr>" ni ci ZeroDivisionError] u
  have "0 < ci \<longrightarrow> dt (config s) \<noteq> 0" by auto
  with t transitions_result(3) [OF t] update_stats_rt [OF u]
  show "\<exists>as3 new_infections current_infectious.
          transitions s g = Inr (as3, g', new_infections, current_infectious)
        \<and> current_infectious = int (length (filter (\<lambda>a. state a = I) (agents s)))
        \<and> (0 < current_infectious \<longrightarrow> dt (config s) \<noteq> 0)
        \<and> rt_history s' = rt_history s @
             [if 0 < current_infectious
              then real_of_int new_infections / dt (config s)
                     / real_of_int current_infectious * infectious_mean (config s)
              else 0]"
    by simp
next
  assume "construct cfg g0 = Inr (s0, g1)"
  then show "rt_history s0 = [0]" by (rule construct_result(2))
qed


theorem rt_estimate_witness:
  "\<exists>s' g' s0 g1. step contact_sim (const_rng (1 / 2) 0) = Inr (s', g')
     \<and> rt_history s' = [7]
     \<and> construct test_config (const_rng (1 / 2) 0) = Inr (s0, g1) \<and> rt_history s0 = [0]"
proof -
  have "\<exists>s' g'. step contact_sim (const_rng (1 / 2) 0) = Inr (s', g')"
    by (rule step_total) (simp_all add: contact_sim_def new_sim_def test_config_def)
  then obtain s' g' where st: "step contact_sim (const_rng (1 / 2) 0) = Inr (s', g')" by blast
  have "\<exists>s0 g1. construct test_config (const_rng (1 / 2) 0) = Inr (s0, g1)"
    using construct_error [of test_config "const_rng (1 / 2) 0"]
    by (cases "construct test_config (const_rng (1 / 2) 0)") (auto simp: test_config_def)
  then obtain s0 g1 where c: "construct test_config (const_rng (1 / 2) 0) = Inr (s0, g1)"
    by blast
  note w = rt_estimate [of contact_sim "const_rng (1 / 2) 0" s' g' test_config
      "const_rng (1 / 2) 0" s0 g1]
  from w st obtain as3 ni ci where
    t: "transitions contact_sim (const_rng (1 / 2) 0) = Inr (as3, g', ni, ci)"
    and rt: "rt_history s' = rt_history contact_sim @
             [if 0 < ci
              then real_of_int ni / dt (config contact_sim)
                     / real_of_int ci * infectious_mean (config contact_sim)
              else 0]"
    by blast
  from contact_counters t have "ni = 1" "ci = 1" by simp_all
  with rt have "rt_history s' = [7]"
    by (simp add: contact_sim_def new_sim_def test_config_def)
  moreover from w c have "rt_history s0 = [0]" by blast
  ultimately show ?thesis using st c by blast
qed

subsection \<open>C9: boundary reflection\<close>

text \<open>
  C9, as stated, fails on its example: with the default \<^verbatim>\<open>dt = 0.5\<close>, a grid of 100 and
  no home or random force, \<^verbatim>\<open>move\<close> takes \<open>x = -1\<close>, \<open>vx = -2\<close> to \<open>x = 1.95\<close>,
  \<open>vx = 1.9\<close>, not to \<open>x = 1\<close>, \<open>vx = 2\<close>: the velocity is damped by 0.95 and the
  position is advanced by \<^verbatim>\<open>vx * dt\<close> before the boundary check.
\<close>

theorem boundary_reflection_counterexample:
  "x (fst (move 100 (1 / 2) 0 0 reflect_agent (const_rng (1 / 2) 0))) = 39 / 20
   \<and> vx (fst (move 100 (1 / 2) 0 0 reflect_agent (const_rng (1 / 2) 0))) = 19 / 10
   \<and> \<not> (x (fst (move 100 (1 / 2) 0 0 reflect_agent (const_rng (1 / 2) 0))) = 1
        \<and> vx (fst (move 100 (1 / 2) 0 0 reflect_agent (const_rng (1 / 2) 0))) = 2)"
  by (simp add: move_def reflect_agent_def new_agent_def const_rng_def uniform_def random_def
      attract_def random_walk_def damp_def update_position_def bounce_x_def bounce_y_def Let_def)

text \<open>
  C9, amended. For an agent that moves (not deceased, not isolated), let \<open>v\<close> be the
  velocity after attraction, random walk and damping, and \<open>p = x + v * dt\<close> the position
  after the update. If \<open>p\<close> is below 0 the agent ends at \<open>-p\<close>, if it is above the grid
  size at \<open>2 * grid_size - p\<close>, in both cases with velocity \<open>-v\<close>; otherwise at \<open>p\<close> with
  velocity \<open>v\<close>; and likewise for \<open>y\<close>. So the agent of the example ends at
  \<open>x = 1 + 1.9 * dt\<close> with \<open>vx = 1.9\<close>. It is the boundary check alone that takes
  \<open>x = -1\<close>, \<open>vx = -2\<close> to \<open>x = 1\<close>, \<open>vx = 2\<close>.
\<close>

theorem boundary_reflection:
  assumes "state a \<noteq> D" and "\<not> is_isolated a"
  shows "let v = (vx a + (home_x a - x a) * ha * h + (- 1 + 2 * py_random g 0) * rf * h)
                   * (95 / 100);
             p = x a + v * h;
             w = (vy a + (home_y a - y a) * ha * h + (- 1 + 2 * py_random g 1) * rf * h)
                   * (95 / 100);
             q = y a + w * h;
             a' = fst (move gs h ha rf a g)
         in (p < 0 \<longrightarrow> x a' = - p \<and> vx a' = - v)
          \<and> (0 \<le> p \<and> gs < p \<longrightarrow> x a' = 2 * gs - p \<and> vx a' = - v)
          \<and> (0 \<le> p \<and> p \<le> gs \<longrightarrow> x a' = p \<and> vx a' = v)
          \<and> (q < 0 \<longrightarrow> y a' = - q \<and> vy a' = - w)
          \<and> (0 \<le> q \<and> gs < q \<longrightarrow> y a' = 2 * gs - q \<and> vy a' = - w)
          \<and> (0 \<le> q \<and> q \<le> gs \<longrightarrow> y a' = q \<and> vy a' = w)
          \<and> (x a = - 1 \<and> vx a = - 2 \<and> ha = 0 \<and> rf = 0 \<and> 0 \<le> h \<longrightarrow>
                x a' = 1 + 19 / 10 * h \<and> vx a' = 19 / 10)
          \<and> (x b = - 1 \<and> vx b = - 2 \<longrightarrow>
                x (bounce_x gs b) = 1 \<and> vx (bounce_x gs b) = 2)"
  unfolding Let_def move_unfold [OF assms]
  by (simp add: bounce_x_cases bounce_y_cases before_bounce)

theorem boundary_reflection_witness:
  "state reflect_agent \<noteq> D \<and> \<not> is_isolated reflect_agent
   \<and> x reflect_agent = - 1 \<and> vx reflect_agent = - 2
   \<and> x (fst (move 100 1 0 0 reflect_agent (const_rng (1 / 2) 0))) = 29 / 10
   \<and> vx (fst (move 100 1 0 0 reflect_agent (const_rng (1 / 2) 0))) = 19 / 10
   \<and> x (bounce_x 100 reflect_agent) = 1 \<and> vx (bounce_x 100 reflect_agent) = 2"
  using boundary_reflection [where a = reflect_agent and ha = 0 and h = 1 and rf = 0
      and g = "const_rng (1 / 2) 0" and gs = 100 and b = reflect_agent]
  by (simp add: reflect_agent_def new_agent_def Let_def)

subsection \<open>C10: isolation only in state I\<close>

text \<open>
  C10. At every step boundary of a constructed simulation, an isolated agent is in state
  \<open>I\<close>. In one \<^verbatim>\<open>step\<close>, the flag of an agent goes from false to true only if the agent
  goes from \<open>E\<close> to \<open>I\<close>, and an agent that leaves \<open>I\<close> ends with the flag false. In
  the iteration of part 3 for an agent whose flag is false, the flag becomes true exactly
  when the agent is exposed, its decremented timer is at most zero, and the next two
  draws of \<^verbatim>\<open>random.random()\<close> are below \<^verbatim>\<open>detection_prob\<close> and
  \<^verbatim>\<open>isolation_compliance\<close>.
\<close>

theorem isolation_only_while_infectious:
  "(construct cfg g = Inr (s0, g0) \<and> steps n s0 g0 = Inr (s, g') \<longrightarrow>
      (\<forall>a\<in>set (agents s). is_isolated a \<longrightarrow> state a = I))
   \<and> (step s1 g1 = Inr (s2, g2) \<and> k < length (agents s1) \<longrightarrow>
        (\<not> is_isolated (agents s1 ! k) \<and> is_isolated (agents s2 ! k) \<longrightarrow>
           state (agents s1 ! k) = E \<and> state (agents s2 ! k) = I)
      \<and> (state (agents s1 ! k) = I \<and> state (agents s2 ! k) \<noteq> I \<longrightarrow>
           \<not> is_isolated (agents s2 ! k)))
   \<and> (decide c grid sz i (as, h, ni, ci) = Inr (as', h', ni', ci') \<and> i < length as
        \<and> \<not> is_isolated (as ! i) \<longrightarrow>
        (is_isolated (as' ! i) \<longleftrightarrow>
           state (as ! i) = E \<and> state_timer (as ! i) - dt c \<le> 0
           \<and> py_random h 0 < detection_prob c \<and> py_random h 1 < isolation_compliance c))"
proof (intro conjI impI)
  assume a: "construct cfg g = Inr (s0, g0) \<and> steps n s0 g0 = Inr (s, g')"
  then have "\<forall>a\<in>set (agents s0). is_isolated a \<longrightarrow> state a = I"
    using construct_result(5) [of cfg g s0 g0] by simp
  with a show "\<forall>a\<in>set (agents s). is_isolated a \<longrightarrow> state a = I"
    using steps_invariant(4) [of n s0 g0 s g'] by blast
next
  assume a: "step s1 g1 = Inr (s2, g2) \<and> k < length (agents s1)"
  then have st: "agent_step (config s1) (agents s1 ! k) (agents s2 ! k)"
    using step_result(3) [of s1 g1 s2 g2 k] by simp
  show "state (agents s1 ! k) = E" "state (agents s2 ! k) = I"
    if "\<not> is_isolated (agents s1 ! k) \<and> is_isolated (agents s2 ! k)"
    using agent_step_isolation(1) [OF st] that by simp_all
  show "\<not> is_isolated (agents s2 ! k)"
    if "state (agents s1 ! k) = I \<and> state (agents s2 ! k) \<noteq> I"
    using agent_step_isolation(2) [OF st] that by simp
next
  assume "decide c grid sz i (as, h, ni, ci) = Inr (as', h', ni', ci') \<and> i < length as
        \<and> \<not> is_isolated (as ! i)"
  then show "is_isolated (as' ! i) \<longleftrightarrow>
           state (as ! i) = E \<and> state_timer (as ! i) - dt c \<le> 0
           \<and> py_random h 0 < detection_prob c \<and> py_random h 1 < isolation_compliance c"
    using decide_isolates [of c grid sz i as h ni ci as' h' ni' ci'] by simp
qed


theorem isolation_only_while_infectious_witness:
  "\<exists>s0 g0 s g' s2 g2.
     construct (test_config\<lparr>N := 2\<rparr>) (const_rng (1 / 4) 1) = Inr (s0, g0)
     \<and> steps 3 s0 g0 = Inr (s, g')
     \<and> (\<forall>a\<in>set (agents s). is_isolated a \<longrightarrow> state a = I)
     \<and> step isolation_sim (const_rng (1 / 2) 0) = Inr (s2, g2)
     \<and> 0 < length (agents isolation_sim)
     \<and> \<not> is_isolated (agents isolation_sim ! 0) \<and> is_isolated (agents s2 ! 0)
     \<and> state (agents isolation_sim ! 0) = E \<and> state (agents s2 ! 0) = I"
proof -
  let ?cfg = "test_config\<lparr>N := 2\<rparr>"
  from small_population obtain s0 g0 where
    c: "construct ?cfg (const_rng (1 / 4) 1) = Inr (s0, g0)"
    by (auto split: sum.splits)
  from construct_result(1) [OF c] have cfg: "config s0 = ?cfg" .
  have "\<exists>s g'. steps 3 s0 g0 = Inr (s, g')"
    by (rule steps_total) (simp_all add: cfg test_config_def)
  then obtain s g' where st: "steps 3 s0 g0 = Inr (s, g')" by blast
  from isolation_run obtain s2 g2 where
    i: "step isolation_sim (const_rng (1 / 2) 0) = Inr (s2, g2)" "is_isolated (agents s2 ! 0)"
    by (auto split: sum.splits)
  have h: "0 < length (agents isolation_sim)" "\<not> is_isolated (agents isolation_sim ! 0)"
    by (simp_all add: isolation_sim_def new_sim_def new_agent_def)
  note w = isolation_only_while_infectious
      [where cfg = ?cfg and g = "const_rng (1 / 4) 1" and ?s0.0 = s0 and ?g0.0 = g0 and n = 3
        and s = s and g' = g' and ?s1.0 = isolation_sim and ?g1.0 = "const_rng (1 / 2) 0"
        and ?s2.0 = s2 and ?g2.0 = g2 and k = 0]
  from w c st have "\<forall>a\<in>set (agents s). is_isolated a \<longrightarrow> state a = I" by blast
  moreover from w i h have "state (agents isolation_sim ! 0) = E \<and> state (agents s2 ! 0) = I"
    by blast
  ultimately show ?thesis using c st i h by blast
qed

end
